theory Spec2Isabelle
  imports Complex_Main
begin

section \<open>Python values used by the matching code\<close>

text \<open>
  A Python string is a sequence of Unicode code points.  It is modelled as a HOL string,
  where the character with the number \<open>n\<close> stands for the code point \<open>n\<close> (it is a code
  point, not a byte of an encoding), so the strings of the model are the Python strings
  over the code points 0 to 255.  Python floats are modelled as real numbers: every
  arithmetic step of the source is taken exactly, so rounding is not part of the model.
  Exceptions are values of the type \<open>error\<close>.
\<close>

datatype error = ParserError | IndexError | ValueError | EOFError

text \<open>\<^verbatim>\<open>str.upper()\<close> maps the letters \<open>a-z\<close>; the upper case of the other code points is
  not modelled, they are left as they are.\<close>

definition upper_char :: "char \<Rightarrow> char" where
  "upper_char c =
     (let n = (of_char c :: nat) in if 97 \<le> n \<and> n \<le> 122 then char_of (n - 32) else c)"

definition upper :: "string \<Rightarrow> string" where
  "upper s = map upper_char s"

text \<open>\<^verbatim>\<open>str.lower()\<close>: the upper-case letters among the code points 0 to 255 are \<open>A-Z\<close>
  (65 to 90) and the accented capitals 192 to 214 and 216 to 222; the lower-case letter
  of each is 32 further on.\<close>

definition lower_char :: "char \<Rightarrow> char" where
  "lower_char c =
     (let n = (of_char c :: nat)
      in if (65 \<le> n \<and> n \<le> 90) \<or> (192 \<le> n \<and> n \<le> 214) \<or> (216 \<le> n \<and> n \<le> 222)
         then char_of (n + 32) else c)"

definition lower :: "string \<Rightarrow> string" where
  "lower s = map lower_char s"

text \<open>\<^verbatim>\<open>str.isdigit()\<close> holds for a non-empty string of digits.  Among the code points 0
  to 255 the digits are the decimal digits \<open>0-9\<close> (48 to 57) and the superscript digits
  two, three and one (178, 179 and 185).\<close>

definition is_decimal :: "char \<Rightarrow> bool" where
  "is_decimal c = (48 \<le> (of_char c :: nat) \<and> (of_char c :: nat) \<le> 57)"

definition is_digit :: "char \<Rightarrow> bool" where
  "is_digit c = (is_decimal c \<or> (of_char c :: nat) = 178 \<or> (of_char c :: nat) = 179
                 \<or> (of_char c :: nat) = 185)"

definition isdigit :: "string \<Rightarrow> bool" where
  "isdigit s = (s \<noteq> [] \<and> list_all is_digit s)"

text \<open>\<^verbatim>\<open>int(s)\<close> for a string of digits: the number that the decimal digits denote in
  base ten, and \<open>ValueError\<close> (the result \<open>None\<close> here) when a digit is not a decimal
  digit, as for the superscript two.  Interpreters with the limit on the conversion of
  integer strings (CPython from 3.11 on, by default) also raise \<open>ValueError\<close> on more than
  4300 digits, and so does the model; older interpreters convert such a string.\<close>

definition all_decimal :: "string \<Rightarrow> bool" where
  "all_decimal s = (s \<noteq> [] \<and> list_all is_decimal s)"

definition decimal_value :: "string \<Rightarrow> nat" where
  "decimal_value s = foldl (\<lambda>n c. 10 * n + (of_char c - 48)) 0 s"

definition py_int :: "string \<Rightarrow> nat option" where
  "py_int s = (if all_decimal s \<and> length s \<le> 4300 then Some (decimal_value s) else None)"

section \<open>The sequence matcher behind \<open>ro_distance\<close>\<close>

text \<open>The junk predicate that \<open>ro_distance\<close> hands to the matcher:
  \<^verbatim>\<open>lambda x: x in ".()"\<close>.\<close>

definition isjunk :: "char \<Rightarrow> bool" where
  "isjunk x = (x \<in> set ''.()'')"

text \<open>
  Modelled from the spec: \<^verbatim>\<open>difflib.SequenceMatcher\<close> belongs to Python's standard
  library and is not part of the repository.  The spec describes it as a
  longest-matching-blocks (Ratcliff/Obershelp-style) algorithm that ignores the junk
  characters when it looks for a block, with the ratio
  \<open>2 * matched / (len a + len b)\<close>, defined as 1 when both strings are empty.  The
  definitions below follow the library's algorithm step by step: the junk elements of
  \<open>b\<close>, the index \<open>b2j\<close> without junk and without popular elements, the
  dynamic-programming search of \<open>find_longest_match\<close> with its four extension loops, the
  recursion of \<open>get_matching_blocks\<close> on the pieces left and right of a match, and
  \<open>ratio\<close>.
\<close>

definition isbjunk :: "string \<Rightarrow> char \<Rightarrow> bool" where
  "isbjunk b x = (x \<in> set b \<and> isjunk x)"

text \<open>With \<open>autojunk\<close> (the default), in a sequence of at least 200 elements the
  non-junk elements that occur more than \<open>n div 100 + 1\<close> times are popular.\<close>

definition bpopular :: "string \<Rightarrow> char \<Rightarrow> bool" where
  "bpopular b x =
     (x \<in> set b \<and> \<not> isjunk x \<and> 200 \<le> length b \<and> length b div 100 + 1 < count_list b x)"

text \<open>\<open>b2j.get(x, [])\<close>: the ascending positions of \<open>x\<close> in \<open>b\<close>, nothing for junk and
  popular elements.\<close>

definition b2j :: "string \<Rightarrow> char \<Rightarrow> nat list" where
  "b2j b x =
     (if isjunk x \<or> bpopular b x then [] else filter (\<lambda>j. b ! j = x) [0..<length b])"

text \<open>\<open>j2len.get(j - 1, 0)\<close>; the key \<open>-1\<close> is never present.\<close>

definition j2lenget :: "(nat \<rightharpoonup> nat) \<Rightarrow> nat \<Rightarrow> nat" where
  "j2lenget j2len j =
     (if j = 0 then 0 else case j2len (j - 1) of None \<Rightarrow> 0 | Some v \<Rightarrow> v)"

text \<open>The inner loop of \<open>find_longest_match\<close> over the positions \<open>j\<close> of \<open>a[i]\<close> in
  \<open>b\<close>, with its \<open>continue\<close> below \<open>blo\<close> and its \<open>break\<close> from \<open>bhi\<close> on.  The state
  is \<open>newj2len\<close> and the best match so far.\<close>

fun flm_inner ::
  "nat \<Rightarrow> nat \<Rightarrow> nat \<Rightarrow> (nat \<rightharpoonup> nat) \<Rightarrow> nat list \<Rightarrow>
   (nat \<rightharpoonup> nat) \<times> nat \<times> nat \<times> nat \<Rightarrow> (nat \<rightharpoonup> nat) \<times> nat \<times> nat \<times> nat" where
  "flm_inner blo bhi i j2len [] st = st"
| "flm_inner blo bhi i j2len (j # js) (newj2len, besti, bestj, bestsize) =
     (if j < blo then flm_inner blo bhi i j2len js (newj2len, besti, bestj, bestsize)
      else if bhi \<le> j then (newj2len, besti, bestj, bestsize)
      else
        let k = j2lenget j2len j + 1 in
        flm_inner blo bhi i j2len js
          (newj2len(j \<mapsto> k),
           if bestsize < k then (i + 1 - k, j + 1 - k, k) else (besti, bestj, bestsize)))"

text \<open>The outer loop \<open>for i in range(alo, ahi)\<close>.\<close>

function flm_outer ::
  "string \<Rightarrow> string \<Rightarrow> nat \<Rightarrow> nat \<Rightarrow> nat \<Rightarrow> nat \<Rightarrow>
   (nat \<rightharpoonup> nat) \<times> nat \<times> nat \<times> nat \<Rightarrow> nat \<times> nat \<times> nat" where
  "flm_outer a b ahi blo bhi i (j2len, best) =
     (if i < ahi
      then flm_outer a b ahi blo bhi (i + 1)
             (flm_inner blo bhi i j2len (b2j b (a ! i)) (Map.empty, best))
      else best)"
  by pat_completeness auto
termination
  by (relation "measure (\<lambda>(a, b, ahi, blo, bhi, i, st). ahi - i)") auto

text \<open>The extension loops: to the left and to the right, first over elements that are
  not junk (\<open>jk = False\<close>), then over junk (\<open>jk = True\<close>).\<close>

function extend_left ::
  "bool \<Rightarrow> string \<Rightarrow> string \<Rightarrow> nat \<Rightarrow> nat \<Rightarrow> nat \<times> nat \<times> nat \<Rightarrow> nat \<times> nat \<times> nat" where
  "extend_left jk a b alo blo (besti, bestj, bestsize) =
     (if alo < besti \<and> blo < bestj \<and> isbjunk b (b ! (bestj - 1)) = jk
         \<and> a ! (besti - 1) = b ! (bestj - 1)
      then extend_left jk a b alo blo (besti - 1, bestj - 1, bestsize + 1)
      else (besti, bestj, bestsize))"
  by pat_completeness auto
termination
  by (relation "measure (\<lambda>(jk, a, b, alo, blo, besti, bestj, bestsize). besti)") auto

function extend_right ::
  "bool \<Rightarrow> string \<Rightarrow> string \<Rightarrow> nat \<Rightarrow> nat \<Rightarrow> nat \<times> nat \<times> nat \<Rightarrow> nat \<times> nat \<times> nat" where
  "extend_right jk a b ahi bhi (besti, bestj, bestsize) =
     (if besti + bestsize < ahi \<and> bestj + bestsize < bhi
         \<and> isbjunk b (b ! (bestj + bestsize)) = jk
         \<and> a ! (besti + bestsize) = b ! (bestj + bestsize)
      then extend_right jk a b ahi bhi (besti, bestj, bestsize + 1)
      else (besti, bestj, bestsize))"
  by pat_completeness auto
termination
  by (relation "measure (\<lambda>(jk, a, b, ahi, bhi, besti, bestj, bestsize). ahi - (besti + bestsize))")
    auto

definition find_longest_match ::
  "string \<Rightarrow> string \<Rightarrow> nat \<Rightarrow> nat \<Rightarrow> nat \<Rightarrow> nat \<Rightarrow> nat \<times> nat \<times> nat" where
  "find_longest_match a b alo ahi blo bhi =
     extend_right True a b ahi bhi
       (extend_left True a b alo blo
          (extend_right False a b ahi bhi
             (extend_left False a b alo blo
                (flm_outer a b ahi blo bhi alo (Map.empty, alo, blo, 0)))))"

declare flm_outer.simps [simp del] extend_left.simps [simp del] extend_right.simps [simp del]

subsection \<open>A match lies inside its window\<close>

text \<open>The recursion of \<open>get_matching_blocks\<close> ends because the block that
  \<open>find_longest_match\<close> returns lies inside the window it was given.  \<open>inwin\<close> says that
  a block \<open>(i, j, k)\<close> lies inside the window \<open>a[alo:ahi]\<close>, \<open>b[blo:bhi]\<close>; \<open>rowbound\<close>
  bounds the run lengths stored in \<open>j2len\<close> when the outer loop is at row \<open>i\<close>.\<close>

definition inwin :: "nat \<Rightarrow> nat \<Rightarrow> nat \<Rightarrow> nat \<Rightarrow> nat \<times> nat \<times> nat \<Rightarrow> bool" where
  "inwin alo ahi blo bhi m =
     (case m of (i, j, k) \<Rightarrow> alo \<le> i \<and> i + k \<le> max alo ahi \<and> blo \<le> j \<and> j + k \<le> max blo bhi)"

definition rowbound :: "nat \<Rightarrow> nat \<Rightarrow> nat \<Rightarrow> (nat \<rightharpoonup> nat) \<Rightarrow> bool" where
  "rowbound alo blo i j2len = (\<forall>j v. j2len j = Some v \<longrightarrow> v \<le> i - alo \<and> v \<le> j + 1 - blo \<and> blo \<le> j)"

lemma j2lenget_bound:
  "rowbound alo blo i j2len \<Longrightarrow> blo \<le> j \<Longrightarrow> j2lenget j2len j \<le> i - alo \<and> j2lenget j2len j \<le> j - blo"
  by (auto simp: rowbound_def j2lenget_def split: option.splits) (fastforce)+

lemma flm_inner_bounds:
  assumes "rowbound alo blo i j2len" "alo \<le> i" "i < ahi"
  shows "rowbound alo blo (i + 1) (fst st) \<Longrightarrow> inwin alo ahi blo bhi (snd st) \<Longrightarrow>
         rowbound alo blo (i + 1) (fst (flm_inner blo bhi i j2len js st)) \<and>
         inwin alo ahi blo bhi (snd (flm_inner blo bhi i j2len js st))"
proof (induction js arbitrary: st)
  case Nil
  then show ?case by simp
next
  case (Cons j js)
  obtain new bi bj bs where st: "st = (new, bi, bj, bs)" by (cases st) auto
  show ?case
  proof (cases "j < blo \<or> bhi \<le> j")
    case True
    then show ?thesis using Cons st by auto
  next
    case False
    then have j: "blo \<le> j" "j < bhi" by auto
    let ?k = "j2lenget j2len j + 1"
    from j2lenget_bound[OF assms(1) j(1)] have kb: "?k \<le> i + 1 - alo" "?k \<le> j + 1 - blo"
      using assms(2) j by auto
    have r: "rowbound alo blo (i + 1) (new(j \<mapsto> ?k))"
      using Cons.prems(1) kb j unfolding rowbound_def st by auto
    have w: "inwin alo ahi blo bhi (if bs < ?k then (i + 1 - ?k, j + 1 - ?k, ?k) else (bi, bj, bs))"
      using Cons.prems(2) kb j assms(2,3) unfolding inwin_def st by auto
    have "flm_inner blo bhi i j2len (j # js) st =
          flm_inner blo bhi i j2len js (new(j \<mapsto> ?k), if bs < ?k then (i + 1 - ?k, j + 1 - ?k, ?k) else (bi, bj, bs))"
      using False st by (simp add: Let_def)
    moreover from Cons.IH[of "(new(j \<mapsto> ?k), if bs < ?k then (i + 1 - ?k, j + 1 - ?k, ?k) else (bi, bj, bs))"] r w
    have "rowbound alo blo (i + 1) (fst (flm_inner blo bhi i j2len js (new(j \<mapsto> ?k), if bs < ?k then (i + 1 - ?k, j + 1 - ?k, ?k) else (bi, bj, bs)))) \<and>
         inwin alo ahi blo bhi (snd (flm_inner blo bhi i j2len js (new(j \<mapsto> ?k), if bs < ?k then (i + 1 - ?k, j + 1 - ?k, ?k) else (bi, bj, bs))))"
      by (simp only: fst_conv snd_conv)
    ultimately show ?thesis by (simp only:)
  qed
qed

lemma rowbound_empty: "rowbound alo blo i Map.empty"
  by (simp add: rowbound_def)

lemma flm_outer_bounds:
  "rowbound alo blo i j2len \<Longrightarrow> alo \<le> i \<Longrightarrow> inwin alo ahi blo bhi best \<Longrightarrow>
   inwin alo ahi blo bhi (flm_outer a b ahi blo bhi i (j2len, best))"
proof (induction a b ahi blo bhi i "(j2len, best)" arbitrary: j2len best rule: flm_outer.induct)
  case (1 a b ahi blo bhi i j2len best)
  show ?case
  proof (cases "i < ahi")
    case True
    obtain new best' where e: "flm_inner blo bhi i j2len (b2j b (a ! i)) (Map.empty, best) = (new, best')"
      by (cases "flm_inner blo bhi i j2len (b2j b (a ! i)) (Map.empty, best)") auto
    from flm_inner_bounds[OF "1.prems"(1,2) True, of "(Map.empty, best)" bhi "b2j b (a ! i)"] e "1.prems"(3)
    have "rowbound alo blo (i + 1) new" "inwin alo ahi blo bhi best'"
      by (auto simp: rowbound_empty)
    with "1.hyps"[OF True e] "1.prems"(2) True e show ?thesis
      by (subst flm_outer.simps) simp
  next
    case False
    then show ?thesis using "1.prems" by (subst flm_outer.simps) simp
  qed
qed

lemma extend_left_step:
  "alo < besti \<and> blo < bestj \<and> isbjunk b (b ! (bestj - 1)) = jk
     \<and> a ! (besti - 1) = b ! (bestj - 1) \<Longrightarrow>
   extend_left jk a b alo blo (besti, bestj, bestsize) =
   extend_left jk a b alo blo (besti - 1, bestj - 1, bestsize + 1)"
  by (subst extend_left.simps) simp

lemma extend_left_stop:
  "\<not> (alo < besti \<and> blo < bestj \<and> isbjunk b (b ! (bestj - 1)) = jk
     \<and> a ! (besti - 1) = b ! (bestj - 1)) \<Longrightarrow>
   extend_left jk a b alo blo (besti, bestj, bestsize) = (besti, bestj, bestsize)"
  by (subst extend_left.simps) auto

lemma extend_right_step:
  "besti + bestsize < ahi \<and> bestj + bestsize < bhi
     \<and> isbjunk b (b ! (bestj + bestsize)) = jk
     \<and> a ! (besti + bestsize) = b ! (bestj + bestsize) \<Longrightarrow>
   extend_right jk a b ahi bhi (besti, bestj, bestsize) =
   extend_right jk a b ahi bhi (besti, bestj, bestsize + 1)"
  by (subst extend_right.simps) simp

lemma extend_right_stop:
  "\<not> (besti + bestsize < ahi \<and> bestj + bestsize < bhi
     \<and> isbjunk b (b ! (bestj + bestsize)) = jk
     \<and> a ! (besti + bestsize) = b ! (bestj + bestsize)) \<Longrightarrow>
   extend_right jk a b ahi bhi (besti, bestj, bestsize) = (besti, bestj, bestsize)"
  by (subst extend_right.simps) auto

lemma extend_left_bounds:
  "inwin alo ahi blo bhi m \<Longrightarrow> inwin alo ahi blo bhi (extend_left jk a b alo blo m)"
proof (induction jk a b alo blo m rule: extend_left.induct)
  case (1 jk a b alo blo besti bestj bestsize)
  show ?case
  proof (cases "alo < besti \<and> blo < bestj \<and> isbjunk b (b ! (bestj - 1)) = jk \<and> a ! (besti - 1) = b ! (bestj - 1)")
    case True
    have "inwin alo ahi blo bhi (besti - 1, bestj - 1, bestsize + 1)"
      using "1.prems" True by (auto simp: inwin_def)
    then show ?thesis using "1.IH"[OF True] extend_left_step[OF True] by simp
  next
    case False
    then show ?thesis using "1.prems" extend_left_stop[OF False] by simp
  qed
qed

lemma extend_right_bounds:
  "inwin alo ahi blo bhi m \<Longrightarrow> inwin alo ahi blo bhi (extend_right jk a b ahi bhi m)"
proof (induction jk a b ahi bhi m rule: extend_right.induct)
  case (1 jk a b ahi bhi besti bestj bestsize)
  show ?case
  proof (cases "besti + bestsize < ahi \<and> bestj + bestsize < bhi
         \<and> isbjunk b (b ! (bestj + bestsize)) = jk
         \<and> a ! (besti + bestsize) = b ! (bestj + bestsize)")
    case True
    have "inwin alo ahi blo bhi (besti, bestj, bestsize + 1)"
      using "1.prems" True by (auto simp: inwin_def)
    then show ?thesis using "1.IH"[OF True] extend_right_step[OF True] by simp
  next
    case False
    then show ?thesis using "1.prems" extend_right_stop[OF False] by simp
  qed
qed

lemma find_longest_match_bounds:
  "inwin alo ahi blo bhi (find_longest_match a b alo ahi blo bhi)"
  unfolding find_longest_match_def
  by (intro extend_right_bounds extend_left_bounds flm_outer_bounds rowbound_empty)
     (simp_all add: inwin_def)

subsection \<open>Matching blocks and the ratio\<close>

text \<open>\<open>get_matching_blocks\<close> works through a queue of windows; the blocks are listed here
  in the order match, left part, right part.  The library then sorts the blocks, merges
  adjacent ones and appends a block of size 0, none of which changes the sum of the
  sizes that \<open>ratio\<close> takes.\<close>

function matching_blocks ::
  "string \<Rightarrow> string \<Rightarrow> nat \<Rightarrow> nat \<Rightarrow> nat \<Rightarrow> nat \<Rightarrow> (nat \<times> nat \<times> nat) list" where
  "matching_blocks a b alo ahi blo bhi =
     (case find_longest_match a b alo ahi blo bhi of (i, j, k) \<Rightarrow>
        if k = 0 then []
        else (i, j, k)
             # (if alo < i \<and> blo < j then matching_blocks a b alo i blo j else [])
             @ (if i + k < ahi \<and> j + k < bhi
                then matching_blocks a b (i + k) ahi (j + k) bhi else []))"
  by pat_completeness auto
termination
proof (relation "measure (\<lambda>(a, b, alo, ahi, blo, bhi). ahi - alo)", goal_cases)
  case 1
  show ?case by simp
next
  case (2 a b alo ahi blo bhi i m j k)
  with find_longest_match_bounds[of alo ahi blo bhi a b] show ?case
    by (auto simp: inwin_def max_def split: if_splits)
next
  case (3 a b alo ahi blo bhi i m j k)
  with find_longest_match_bounds[of alo ahi blo bhi a b] show ?case
    by (auto simp: inwin_def max_def split: if_splits)
qed

declare matching_blocks.simps [simp del]

definition calculate_ratio :: "nat \<Rightarrow> nat \<Rightarrow> real" where
  "calculate_ratio matches len = (if len \<noteq> 0 then 2 * real matches / real len else 1)"

definition sizes :: "(nat \<times> nat \<times> nat) list \<Rightarrow> nat" where
  "sizes ms = sum_list (map (\<lambda>(i, j, k). k) ms)"

definition matches :: "string \<Rightarrow> string \<Rightarrow> nat" where
  "matches a b = sizes (matching_blocks a b 0 (length a) 0 (length b))"

definition ratio :: "string \<Rightarrow> string \<Rightarrow> real" where
  "ratio a b = calculate_ratio (matches a b) (length a + length b)"

section \<open>anabasis: the distance between two tracks\<close>

text \<open>\<open>ro_distance\<close>: one minus the ratio of the upper-cased strings.\<close>

definition ro_distance :: "string \<Rightarrow> string \<Rightarrow> real" where
  "ro_distance a b = 1 - ratio (upper a) (upper b)"

subsection \<open>Release dates\<close>

text \<open>\<^verbatim>\<open>arrow.get\<close> belongs to an external library.  It is a parameter of the model: a
  function \<open>arrow_get\<close> that either fails (the library raises \<open>ParserError\<close>) or gives
  the instant the string denotes, as microseconds since the epoch in UTC.  The
  difference of two instants is a \<^verbatim>\<open>timedelta\<close>, whose \<^verbatim>\<open>days\<close> attribute is the
  number of whole days rounded towards minus infinity.\<close>

type_synonym arrow = int

type_synonym parser = "string \<Rightarrow> arrow option"

definition timedelta_days :: "arrow \<Rightarrow> arrow \<Rightarrow> int" where
  "timedelta_days ad bd = (ad - bd) div 86400000000"

definition aceh_f :: "real \<Rightarrow> real" where
  "aceh_f delta = ln (1 + delta) / (1 + ln (1 + delta))"

definition aceh_distance :: "parser \<Rightarrow> string \<Rightarrow> string \<Rightarrow> error + real" where
  "aceh_distance arrow_get a b =
     (case arrow_get a of
        None \<Rightarrow> Inl ParserError
      | Some ad \<Rightarrow>
          (case arrow_get b of
             None \<Rightarrow> Inl ParserError
           | Some bd \<Rightarrow>
               let delta = \<bar>real_of_int (timedelta_days ad bd)\<bar> / 365;
                   f = ln (1 + delta) / (1 + ln (1 + delta))
               in Inr f))"

definition get_tracks_distance ::
  "parser \<Rightarrow> string \<Rightarrow> string \<Rightarrow> string \<Rightarrow> string \<Rightarrow>
   string \<Rightarrow> string \<Rightarrow> string \<Rightarrow> string \<Rightarrow> error + real" where
  "get_tracks_distance arrow_get a_track a_artist a_album a_year
                       b_track b_artist b_album b_year =
     (let d_track = (ro_distance a_track b_track)\<^sup>2;
          d_artist = (ro_distance a_artist b_artist)\<^sup>2;
          d_album = (ro_distance a_album b_album)\<^sup>2
      in case aceh_distance arrow_get a_year b_year of
           Inl e \<Rightarrow> Inl e
         | Inr t \<Rightarrow>
             let d_years = t\<^sup>2;
                 d = sqrt (sum_list [d_track, d_artist, d_album, d_years]) / 2
             in Inr d)"

text \<open>A parser for concrete inputs: the date forms that the two catalogs deliver,
  \<^verbatim>\<open>YYYY\<close>, \<^verbatim>\<open>YYYY-MM\<close>, \<^verbatim>\<open>YYYY-MM-DD\<close> and \<^verbatim>\<open>YYYY-MM-DDTHH:MM:SSZ\<close>; every other
  string fails.  The general results below hold for every parser.\<close>

definition is_leap :: "nat \<Rightarrow> bool" where
  "is_leap y = (y mod 4 = 0 \<and> (y mod 100 \<noteq> 0 \<or> y mod 400 = 0))"

definition days_in_month :: "nat \<Rightarrow> nat \<Rightarrow> nat" where
  "days_in_month y m =
     (if m = 2 then (if is_leap y then 29 else 28)
      else if m = 4 \<or> m = 6 \<or> m = 9 \<or> m = 11 then 30 else 31)"

text \<open>Days from 1970-01-01 to the given date of the Gregorian calendar.\<close>

definition days_from_civil :: "nat \<Rightarrow> nat \<Rightarrow> nat \<Rightarrow> int" where
  "days_from_civil y m d =
     (let y' = (if m \<le> 2 then y - 1 else y);
          era = y' div 400;
          yoe = y' mod 400;
          doy = (153 * (if 2 < m then m - 3 else m + 9) + 2) div 5 + d - 1;
          doe = yoe * 365 + yoe div 4 - yoe div 100 + doy
      in int (era * 146097 + doe) - 719468)"

definition civil :: "string \<Rightarrow> string \<Rightarrow> string \<Rightarrow> int option" where
  "civil ys ms ds =
     (if all_decimal ys \<and> all_decimal ms \<and> all_decimal ds
      then let y = decimal_value ys; m = decimal_value ms; d = decimal_value ds
           in if 1 \<le> y \<and> 1 \<le> m \<and> m \<le> 12 \<and> 1 \<le> d \<and> d \<le> days_in_month y m
              then Some (days_from_civil y m d) else None
      else None)"

definition iso_date :: "string \<Rightarrow> int option" where
  "iso_date s =
     (if length s = 4 then civil s ''01'' ''01''
      else if length s = 7 \<and> s ! 4 = CHR ''-'' then civil (take 4 s) (drop 5 s) ''01''
      else if length s = 10 \<and> s ! 4 = CHR ''-'' \<and> s ! 7 = CHR ''-''
      then civil (take 4 s) (take 2 (drop 5 s)) (drop 8 s)
      else None)"

definition iso_time :: "string \<Rightarrow> int option" where
  "iso_time s =
     (let hs = take 2 s; ms = take 2 (drop 3 s); ss = drop 6 s
      in if length s = 8 \<and> s ! 2 = CHR '':'' \<and> s ! 5 = CHR '':''
            \<and> all_decimal hs \<and> all_decimal ms \<and> all_decimal ss
            \<and> decimal_value hs < 24 \<and> decimal_value ms < 60 \<and> decimal_value ss < 60
         then Some (int (decimal_value hs * 3600 + decimal_value ms * 60 + decimal_value ss))
         else None)"

definition iso_get :: parser where
  "iso_get s =
     (if length s = 20 \<and> s ! 10 = CHR ''T'' \<and> s ! 19 = CHR ''Z''
      then (case iso_date (take 10 s) of
              None \<Rightarrow> None
            | Some d \<Rightarrow>
                (case iso_time (take 8 (drop 11 s)) of
                   None \<Rightarrow> None
                 | Some t \<Rightarrow> Some ((d * 86400 + t) * 1000000)))
      else map_option (\<lambda>d. d * 86400000000) (iso_date s))"

subsection \<open>Tracks of the two catalogs\<close>

text \<open>A search result of the iTunes catalog and a row of the Spotify playlist, with the
  fields that the matching code reads.\<close>

record am_track =
  trackId :: nat
  trackName :: string
  artistName :: string
  collectionName :: string
  collectionCensoredName :: string
  releaseDate :: string

record song =
  title :: string
  artist :: string
  album :: string
  release_date :: string

subsection \<open>\<open>get_best_match\<close>\<close>

text \<open>The loop of \<open>get_best_match\<close> with its state \<open>(nearest, best_match)\<close>; an
  exception of the distance computation ends it.\<close>

fun best_match_loop ::
  "parser \<Rightarrow> string \<Rightarrow> string \<Rightarrow> string \<Rightarrow> string \<Rightarrow> am_track list \<Rightarrow>
   real \<times> am_track option \<Rightarrow> error + real \<times> am_track option" where
  "best_match_loop arrow_get a_track a_artist a_album a_year [] (nearest, best_match) =
     Inr (nearest, best_match)"
| "best_match_loop arrow_get a_track a_artist a_album a_year (tr # tracks) (nearest, best_match) =
     (case get_tracks_distance arrow_get a_track a_artist a_album a_year
             (trackName tr) (artistName tr) (collectionName tr) (releaseDate tr) of
        Inl e \<Rightarrow> Inl e
      | Inr distance \<Rightarrow>
          if distance < nearest
          then best_match_loop arrow_get a_track a_artist a_album a_year tracks (distance, Some tr)
          else best_match_loop arrow_get a_track a_artist a_album a_year tracks
                 (nearest, best_match))"

definition get_best_match ::
  "parser \<Rightarrow> string \<Rightarrow> string \<Rightarrow> string \<Rightarrow> string \<Rightarrow> am_track list \<Rightarrow>
   error + real \<times> am_track option" where
  "get_best_match arrow_get a_track a_artist a_album a_year tracks =
     best_match_loop arrow_get a_track a_artist a_album a_year tracks (1, None)"

text \<open>\<open>getBestMatch\<close>, the caller of \<open>get_best_match\<close> in the playlist export, with the
  result of the search as an argument.  Its \<^verbatim>\<open>try ... except Exception\<close> turns every
  exception of the distance computation into the result \<open>(None, None)\<close>, which is \<open>None\<close>
  here: the track is skipped.\<close>

definition getBestMatch ::
  "parser \<Rightarrow> string \<Rightarrow> string \<Rightarrow> string \<Rightarrow> string \<Rightarrow> am_track list \<Rightarrow>
   (real \<times> am_track) option" where
  "getBestMatch arrow_get a_title a_artist a_album a_year songs =
     (if songs = [] then None
      else
        case get_best_match arrow_get a_title a_artist a_album a_year songs of
          Inl e \<Rightarrow> None
        | Inr (distance, match) \<Rightarrow>
            (case match of None \<Rightarrow> None | Some m \<Rightarrow> Some (distance, m)))"

subsection \<open>The interactive chooser\<close>

text \<open>\<open>displayCandidates\<close> prints one row per candidate of the page: its number in the
  whole list, its distance and its names.  The rows are the result here; the distance
  computation can raise.\<close>

fun displayCandidates ::
  "parser \<Rightarrow> am_track list \<Rightarrow> song \<Rightarrow> nat \<Rightarrow>
   error + (nat \<times> real \<times> string \<times> string \<times> string) list" where
  "displayCandidates arrow_get [] sng pageStart = Inr []"
| "displayCandidates arrow_get (s # candidates) sng pageStart =
     (case get_tracks_distance arrow_get (trackName s) (artistName s)
             (collectionCensoredName s) (releaseDate s)
             (title sng) (artist sng) (album sng) (release_date sng) of
        Inl e \<Rightarrow> Inl e
      | Inr d \<Rightarrow>
          (case displayCandidates arrow_get candidates sng (pageStart + 1) of
             Inl e \<Rightarrow> Inl e
           | Inr rows \<Rightarrow>
               Inr ((pageStart, d, trackName s, artistName s, collectionCensoredName s) # rows)))"

text \<open>\<open>selectSong\<close>: the replies typed by the user are a list, read one per round of the
  loop; at the end of the input \<^verbatim>\<open>input()\<close> raises \<open>EOFError\<close>.  The result is the
  chosen track, or \<open>None\<close> when the user skips.  On a reply of digits \<open>songs[int(ans)]\<close>
  raises \<open>ValueError\<close> when \<^verbatim>\<open>int\<close> does and \<open>IndexError\<close> when the index is out of
  range.\<close>

fun selectSong_loop ::
  "parser \<Rightarrow> am_track list \<Rightarrow> song \<Rightarrow> nat \<Rightarrow> string list \<Rightarrow> error + am_track option" where
  "selectSong_loop arrow_get songs desiredSong page [] =
     (case displayCandidates arrow_get (take 10 (drop (page * 10) songs)) desiredSong (page * 10) of
        Inl e \<Rightarrow> Inl e
      | Inr rows \<Rightarrow> Inl EOFError)"
| "selectSong_loop arrow_get songs desiredSong page (ans # replies) =
     (let nSongs = length songs;
          pageSize = 10;
          start = page * pageSize
      in case displayCandidates arrow_get (take pageSize (drop start songs)) desiredSong start of
           Inl e \<Rightarrow> Inl e
         | Inr rows \<Rightarrow>
             if lower ans = ''s'' then Inr None
             else if lower ans = ''n''
             then (if page + 1 > nSongs div pageSize
                   then selectSong_loop arrow_get songs desiredSong page replies
                   else selectSong_loop arrow_get songs desiredSong (page + 1) replies)
             else if lower ans = ''p''
             then (if page = 0
                   then selectSong_loop arrow_get songs desiredSong page replies
                   else selectSong_loop arrow_get songs desiredSong (page - 1) replies)
             else if isdigit ans
             then (case py_int ans of
                     None \<Rightarrow> Inl ValueError
                   | Some n \<Rightarrow>
                       if n < length songs then Inr (Some (songs ! n)) else Inl IndexError)
             else (case songs of [] \<Rightarrow> Inl IndexError | s0 # rest \<Rightarrow> Inr (Some s0)))"

definition selectSong ::
  "parser \<Rightarrow> am_track list \<Rightarrow> song \<Rightarrow> string list \<Rightarrow> error + am_track option" where
  "selectSong arrow_get songs desiredSong replies =
     selectSong_loop arrow_get songs desiredSong 0 replies"

section \<open>eumenes: choosing the track for a playlist row\<close>

definition distance :: "parser \<Rightarrow> am_track \<Rightarrow> song \<Rightarrow> error + real" where
  "distance arrow_get am spf =
     get_tracks_distance arrow_get
       (trackName am) (artistName am) (collectionName am) (releaseDate am)
       (title spf) (artist spf) (album spf) (release_date spf)"

text \<open>\<open>sorted(candidates, key=lambda x: distance(x, song))\<close>: the keys are computed once,
  from left to right, and the candidates are put in ascending order of their keys by a
  stable sort.\<close>

fun distances :: "parser \<Rightarrow> am_track list \<Rightarrow> song \<Rightarrow> error + real list" where
  "distances arrow_get [] sng = Inr []"
| "distances arrow_get (c # candidates) sng =
     (case distance arrow_get c sng of
        Inl e \<Rightarrow> Inl e
      | Inr d \<Rightarrow>
          (case distances arrow_get candidates sng of
             Inl e \<Rightarrow> Inl e
           | Inr ds \<Rightarrow> Inr (d # ds)))"

definition sorted_candidates :: "parser \<Rightarrow> am_track list \<Rightarrow> song \<Rightarrow> error + am_track list" where
  "sorted_candidates arrow_get candidates sng =
     (case distances arrow_get candidates sng of
        Inl e \<Rightarrow> Inl e
      | Inr ds \<Rightarrow> Inr (map snd (sort_key fst (zip ds candidates))))"

text \<open>The part of the loop body of \<open>add_tracks_from_CSV\<close> that chooses \<open>selected\<close> for one
  row, from the candidates that the search returned: \<open>None\<close> where the loop continues
  with the next row, an error where an exception leaves the function.  The log lines
  compute the same distances again and are left out.\<close>

definition resolve ::
  "parser \<Rightarrow> real \<Rightarrow> bool \<Rightarrow> real \<Rightarrow> song \<Rightarrow> am_track list \<Rightarrow> string list \<Rightarrow>
   error + am_track option" where
  "resolve arrow_get err auto treshold sng candidates replies =
     (if length candidates = 0 then Inr None
      else if length candidates = 1 then Inr (Some (candidates ! 0))
      else
        case sorted_candidates arrow_get candidates sng of
          Inl e \<Rightarrow> Inl e
        | Inr ranked \<Rightarrow>
            (case distance arrow_get (ranked ! 0) sng of
               Inl e \<Rightarrow> Inl e
             | Inr dist' \<Rightarrow>
                 if dist' < err then Inr (Some (ranked ! 0))
                 else if auto \<and> dist' < treshold then Inr (Some (ranked ! 0))
                 else selectSong arrow_get ranked sng replies))"

section \<open>Notions used in the proofs\<close>

text \<open>An element of \<open>b\<close> can start a match when it is neither junk nor popular.
  \<open>run s lo i j\<close> is the length of the longest block of such elements that ends at
  \<open>a[i]\<close> and \<open>b[j]\<close> inside the window starting at \<open>lo\<close>, for \<open>a = b = s\<close>: the
  number that the dynamic programme stores in \<open>j2len\<close>.\<close>

definition elig :: "string \<Rightarrow> char \<Rightarrow> bool" where
  "elig b x = (\<not> isjunk x \<and> \<not> bpopular b x)"

fun run :: "string \<Rightarrow> nat \<Rightarrow> nat \<Rightarrow> nat \<Rightarrow> nat" where
  "run s lo i j =
     (if lo \<le> i \<and> lo \<le> j \<and> s ! i = s ! j \<and> elig s (s ! j)
      then Suc (if i = 0 \<or> j = 0 then 0 else run s lo (i - 1) (j - 1)) else 0)"

declare run.simps [simp del]

text \<open>The invariants of the two loops of \<open>find_longest_match\<close> on equal strings:
  \<open>j2len\<close> holds the runs of the row before \<open>i\<close>, \<open>newj2len\<close> those of row \<open>i\<close> at the
  positions \<open>ps\<close> already visited, and the best block lies on the diagonal and is at
  least as long as every run seen.\<close>

definition rowexact :: "string \<Rightarrow> nat \<Rightarrow> nat \<Rightarrow> nat \<Rightarrow> (nat \<rightharpoonup> nat) \<Rightarrow> bool" where
  "rowexact s lo hi i j2len =
     (\<forall>j. j2len j = (if lo < i \<and> lo \<le> j \<and> j < hi \<and> 0 < run s lo (i - 1) j
                     then Some (run s lo (i - 1) j) else None))"

definition newexact :: "string \<Rightarrow> nat \<Rightarrow> nat \<Rightarrow> nat \<Rightarrow> nat list \<Rightarrow> (nat \<rightharpoonup> nat) \<Rightarrow> bool" where
  "newexact s lo hi i ps new =
     (\<forall>j. new j = (if j \<in> set ps \<and> lo \<le> j \<and> j < hi then Some (run s lo i j) else None))"

definition bestdiag :: "string \<Rightarrow> nat \<Rightarrow> nat \<Rightarrow> nat \<Rightarrow> nat list \<Rightarrow> nat \<times> nat \<times> nat \<Rightarrow> bool" where
  "bestdiag s lo hi i ps m =
     (case m of (bi, bj, bs) \<Rightarrow>
        bi = bj \<and> (\<forall>i' j'. i' < i \<longrightarrow> j' < hi \<longrightarrow> run s lo i' j' \<le> bs)
        \<and> (\<forall>j'\<in>set ps. j' < hi \<longrightarrow> run s lo i j' \<le> bs))"

text \<open>\<open>candidate_distance\<close> is the distance that the loop of \<open>get_best_match\<close> computes
  for a track of the list.\<close>

definition candidate_distance ::
  "parser \<Rightarrow> string \<Rightarrow> string \<Rightarrow> string \<Rightarrow> string \<Rightarrow> am_track \<Rightarrow> error + real" where
  "candidate_distance arrow_get a_track a_artist a_album a_year tr =
     get_tracks_distance arrow_get a_track a_artist a_album a_year
       (trackName tr) (artistName tr) (collectionName tr) (releaseDate tr)"

text \<open>\<open>dist_of\<close> is the sort key of a candidate whose distance can be computed.\<close>

definition dist_of :: "parser \<Rightarrow> song \<Rightarrow> am_track \<Rightarrow> real" where
  "dist_of arrow_get sng c = (case distance arrow_get c sng of Inl e \<Rightarrow> 0 | Inr d \<Rightarrow> d)"

section \<open>Example tracks\<close>

text \<open>A row of a playlist, three search results and a list of twelve search results, for
  the concrete cases below.\<close>

definition hello_song :: song where
  "hello_song = \<lparr>title = ''Hello'', artist = ''Adele'', album = ''25'',
                  release_date = ''2015-10-23''\<rparr>"

definition hello_am :: am_track where
  "hello_am = \<lparr>trackId = 1, trackName = ''Hello'', artistName = ''Adele'',
                collectionName = ''25'', collectionCensoredName = ''25'',
                releaseDate = ''2015-10-23T07:00:00Z''\<rparr>"

definition tribute_am :: am_track where
  "tribute_am = \<lparr>trackId = 2, trackName = ''Hello (Piano Tribute)'', artistName = ''Piano Covers'',
                  collectionName = ''Tribute to Adele'', collectionCensoredName = ''Tribute to Adele'',
                  releaseDate = ''2015-10-23T07:00:00Z''\<rparr>"

definition undated_am :: am_track where
  "undated_am = \<lparr>trackId = 3, trackName = ''Hello'', artistName = ''Adele'',
                  collectionName = ''25'', collectionCensoredName = ''25'',
                  releaseDate = ''''\<rparr>"

definition twelve_tracks :: "am_track list" where
  "twelve_tracks =
     [tribute_am, tribute_am, tribute_am, tribute_am, tribute_am, tribute_am,
      tribute_am, tribute_am, tribute_am, tribute_am, tribute_am, hello_am]"

section \<open>The sequence matcher on equal strings\<close>

text \<open>For equal strings the best block that \<open>find_longest_match\<close> finds lies on the
  diagonal and is not empty, so the blocks cover the whole string.\<close>

lemma b2j_elig:
  "b2j b x = (if elig b x then filter (\<lambda>j. b ! j = x) [0..<length b] else [])"
  by (simp add: b2j_def elig_def)

lemma run_yes:
  "lo \<le> i \<Longrightarrow> lo \<le> j \<Longrightarrow> s ! i = s ! j \<Longrightarrow> elig s (s ! j) \<Longrightarrow>
   run s lo i j = Suc (if i = 0 \<or> j = 0 then 0 else run s lo (i - 1) (j - 1))"
  by (subst run.simps) simp

lemma run_no:
  "\<not> (lo \<le> i \<and> lo \<le> j \<and> s ! i = s ! j \<and> elig s (s ! j)) \<Longrightarrow> run s lo i j = 0"
  by (subst run.simps) auto

lemma run_diag: "run s lo i j \<le> run s lo i i \<and> run s lo i j \<le> run s lo j j"
proof (induction s lo i j rule: run.induct)
  case (1 s lo i j)
  show ?case
  proof (cases "lo \<le> i \<and> lo \<le> j \<and> s ! i = s ! j \<and> elig s (s ! j)")
    case True
    then have c: "lo \<le> i" "lo \<le> j" "s ! i = s ! j" "elig s (s ! j)" "elig s (s ! i)" by auto
    show ?thesis
    proof (cases "i = 0 \<or> j = 0")
      case z: True
      then show ?thesis
        by (simp add: run_yes[OF c(1,2,3,4)] run_yes[OF c(1) c(1) refl c(5)] run_yes[OF c(2) c(2) refl c(4)])
    next
      case nz: False
      from "1.IH"[OF True nz] show ?thesis using nz
        by (simp add: run_yes[OF c(1,2,3,4)] run_yes[OF c(1) c(1) refl c(5)] run_yes[OF c(2) c(2) refl c(4)])
    qed
  next
    case False
    then show ?thesis by (simp add: run_no)
  qed
qed

lemma j2lenget_run:
  assumes "rowexact s lo hi i j2len" "lo \<le> i" "lo \<le> j" "j < hi" "s ! i = s ! j" "elig s (s ! j)"
  shows "j2lenget j2len j + 1 = run s lo i j"
proof -
  have "j2lenget j2len j = (if i = 0 \<or> j = 0 then 0 else run s lo (i - 1) (j - 1))"
  proof (cases "i = 0 \<or> j = 0")
    case True
    then show ?thesis using assms(1)
      by (auto simp: j2lenget_def rowexact_def split: option.splits)
  next
    case False
    have "run s lo (i - 1) (j - 1) = 0" if "\<not> (lo < i \<and> lo \<le> j - 1)"
      using that False by (intro run_no) auto
    then show ?thesis using False assms(1,4)
      by (auto simp: j2lenget_def rowexact_def split: option.splits)
  qed
  then show ?thesis using assms(2-) by (simp add: run_yes)
qed

lemma row_done:
  assumes full: "ps @ rest = filter (\<lambda>j. s ! j = s ! i) [0..<length s]"
    and rest: "\<forall>j\<in>set rest. hi \<le> j"
    and hi: "hi \<le> length s" and lo: "lo \<le> i" and el: "elig s (s ! i)"
    and new: "newexact s lo hi i ps new" and best: "bestdiag s lo hi i ps m"
  shows "rowexact s lo hi (i + 1) new \<and> bestdiag s lo hi (i + 1) [] m"
proof -
  have mem: "j \<in> set ps \<longleftrightarrow> s ! j = s ! i" if "j < hi" for j
  proof -
    have "j \<in> set (ps @ rest) \<longleftrightarrow> s ! j = s ! i" using that hi by (simp add: full)
    moreover have "j \<notin> set rest" using rest that by auto
    ultimately show ?thesis by simp
  qed
  have pos: "0 < run s lo i j \<longleftrightarrow> s ! j = s ! i" if "lo \<le> j" for j
  proof (cases "s ! j = s ! i")
    case True
    then show ?thesis using run_yes[of lo i j s] lo that el by simp
  next
    case False
    then show ?thesis using run_no[of lo i j s] by auto
  qed
  have r: "rowexact s lo hi (i + 1) new"
    unfolding rowexact_def
  proof
    fix j
    show "new j = (if lo < i + 1 \<and> lo \<le> j \<and> j < hi \<and> 0 < run s lo (i + 1 - 1) j
                   then Some (run s lo (i + 1 - 1) j) else None)"
      using new lo mem[of j] pos[of j] by (auto simp: newexact_def)
  qed
  obtain bi bj bs where m: "m = (bi, bj, bs)" by (cases m) auto
  have "run s lo i' j' \<le> bs" if "i' < i + 1" "j' < hi" for i' j'
  proof (cases "i' < i")
    case True
    then show ?thesis using best that by (auto simp: bestdiag_def m)
  next
    case False
    then have e: "i' = i" using that by simp
    show ?thesis
    proof (cases "s ! j' = s ! i")
      case True
      then have "j' \<in> set ps" using mem that by simp
      then show ?thesis using best that e by (auto simp: bestdiag_def m)
    next
      case False
      then show ?thesis using run_no[of lo i j' s] e by auto
    qed
  qed
  then have "bestdiag s lo hi (i + 1) [] m"
    using best by (auto simp: bestdiag_def m)
  with r show ?thesis by simp
qed

lemma flm_inner_diag:
  assumes row: "rowexact s lo hi i j2len" and lo: "lo \<le> i" and ihi: "i < hi"
    and hi: "hi \<le> length s" and el: "elig s (s ! i)"
  shows "ps @ js = filter (\<lambda>j. s ! j = s ! i) [0..<length s] \<Longrightarrow>
         newexact s lo hi i ps new \<Longrightarrow> bestdiag s lo hi i ps m \<Longrightarrow>
         rowexact s lo hi (i + 1) (fst (flm_inner lo hi i j2len js (new, m))) \<and>
         bestdiag s lo hi (i + 1) [] (snd (flm_inner lo hi i j2len js (new, m)))"
proof (induction js arbitrary: ps new m)
  case Nil
  then show ?case using row_done[of ps "[]" s i hi lo new m] hi lo el by simp
next
  case (Cons j js)
  obtain bi bj bs where m: "m = (bi, bj, bs)" by (cases m) auto
  let ?full = "filter (\<lambda>j. s ! j = s ! i) [0..<length s]"
  have srt: "sorted_wrt (<) (ps @ j # js)"
    unfolding Cons.prems(1) by (intro sorted_wrt_filter sorted_wrt_upt)
  have jm: "j \<in> set ?full" using Cons.prems(1)[symmetric] by simp
  then have sj: "s ! j = s ! i" "j < length s" by auto
  have full': "(ps @ [j]) @ js = ?full" using Cons.prems(1) by simp
  show ?case
  proof (cases "j < lo")
    case True
    have "newexact s lo hi i (ps @ [j]) new"
      using Cons.prems(2) True by (auto simp: newexact_def)
    moreover have "bestdiag s lo hi i (ps @ [j]) m"
      using Cons.prems(3) True run_no[of lo i j s] by (auto simp: bestdiag_def m)
    ultimately show ?thesis using Cons.IH[OF full'] True by (simp add: m)
  next
    case nlo: False
    show ?thesis
    proof (cases "hi \<le> j")
      case True
      have "\<forall>x\<in>set (j # js). hi \<le> x"
        using srt True by (auto simp: sorted_wrt_append)
      from row_done[OF Cons.prems(1) this hi lo el Cons.prems(2,3)]
      show ?thesis using nlo True by (simp add: m)
    next
      case nhi: False
      let ?k = "j2lenget j2len j + 1"
      have k: "?k = run s lo i j"
        using j2lenget_run[OF row lo _ _ sj(1)[symmetric]] nlo nhi el sj by simp
      let ?m' = "if bs < ?k then (i + 1 - ?k, j + 1 - ?k, ?k) else (bi, bj, bs)"
      have n': "newexact s lo hi i (ps @ [j]) (new(j \<mapsto> ?k))"
        using Cons.prems(2) nlo nhi k by (auto simp: newexact_def)
      have b': "bestdiag s lo hi i (ps @ [j]) ?m'"
      proof (cases "bs < ?k")
        case False
        then show ?thesis using Cons.prems(3) k by (auto simp: bestdiag_def m)
      next
        case True
        have "j = i"
        proof (rule ccontr)
          assume ne: "j \<noteq> i"
          show False
          proof (cases "j < i")
            case True
            then have "run s lo j j \<le> bs" using Cons.prems(3) ihi by (auto simp: bestdiag_def m)
            with run_diag[of s lo i j] k \<open>bs < ?k\<close> show False by simp
          next
            case False
            then have "i < j" using ne by simp
            have "i \<in> set ?full" using ihi hi by simp
            then have "i \<in> set (ps @ j # js)" using Cons.prems(1) by simp
            moreover have "i \<notin> set (j # js)"
              using srt \<open>i < j\<close> by (auto simp: sorted_wrt_append)
            ultimately have "i \<in> set ps" by simp
            then have "run s lo i i \<le> bs" using Cons.prems(3) ihi by (auto simp: bestdiag_def m)
            with run_diag[of s lo i j] k \<open>bs < ?k\<close> show False by simp
          qed
        qed
        moreover have "run s lo i' j' \<le> ?k" if "i' < i" "j' < hi" for i' j'
        proof -
          have "run s lo i' j' \<le> bs" using Cons.prems(3) that by (auto simp: bestdiag_def m)
          with True show ?thesis by simp
        qed
        moreover have "run s lo i j' \<le> ?k" if "j' \<in> set ps" "j' < hi" for j'
        proof -
          have "run s lo i j' \<le> bs" using Cons.prems(3) that by (auto simp: bestdiag_def m)
          with True show ?thesis by simp
        qed
        moreover have "run s lo i j \<le> ?k" using k by simp
        ultimately show ?thesis using True
          by (simp add: bestdiag_def)
      qed
      have "flm_inner lo hi i j2len (j # js) (new, m) =
            flm_inner lo hi i j2len js (new(j \<mapsto> ?k), ?m')"
        using nlo nhi by (simp add: m Let_def)
      then show ?thesis using Cons.IH[OF full' n' b'] by (simp only:)
    qed
  qed
qed

lemma row_skip:
  assumes el: "\<not> elig s (s ! i)" and best: "bestdiag s lo hi i [] m"
  shows "rowexact s lo hi (i + 1) Map.empty \<and> bestdiag s lo hi (i + 1) [] m"
proof -
  have z: "run s lo i j = 0" for j
    using el by (intro run_no) auto
  obtain bi bj bs where m: "m = (bi, bj, bs)" by (cases m) auto
  have "run s lo i' j' \<le> bs" if "i' < i + 1" "j' < hi" for i' j'
  proof (cases "i' < i")
    case True
    then show ?thesis using best that by (auto simp: bestdiag_def m)
  next
    case False
    then have "i' = i" using that by simp
    then show ?thesis by (simp add: z)
  qed
  then have "bestdiag s lo hi (i + 1) [] m" using best by (auto simp: bestdiag_def m)
  then show ?thesis by (simp add: rowexact_def z)
qed

lemma flm_outer_diag:
  "a = s \<Longrightarrow> b = s \<Longrightarrow> ahi = hi \<Longrightarrow> bhi = hi \<Longrightarrow> blo = lo \<Longrightarrow>
   rowexact s lo hi i j2len \<Longrightarrow> lo \<le> i \<Longrightarrow> hi \<le> length s \<Longrightarrow> bestdiag s lo hi i [] best \<Longrightarrow>
   fst (flm_outer a b ahi blo bhi i (j2len, best)) = fst (snd (flm_outer a b ahi blo bhi i (j2len, best)))"
proof (induction a b ahi blo bhi i "(j2len, best)" arbitrary: j2len best rule: flm_outer.induct)
  case (1 a b ahi blo bhi i j2len best)
  note eqs = "1.prems"(1-5)
  show ?case
  proof (cases "i < ahi")
    case False
    then have "flm_outer a b ahi blo bhi i (j2len, best) = best"
      by (subst flm_outer.simps) simp
    then show ?thesis using "1.prems"(9) by (cases best) (auto simp: bestdiag_def)
  next
    case True
    obtain new best' where e: "flm_inner blo bhi i j2len (b2j b (a ! i)) (Map.empty, best) = (new, best')"
      by (cases "flm_inner blo bhi i j2len (b2j b (a ! i)) (Map.empty, best)") auto
    have inv: "rowexact s lo hi (i + 1) new \<and> bestdiag s lo hi (i + 1) [] best'"
    proof (cases "elig s (s ! i)")
      case el: True
      have n0: "newexact s lo hi i [] Map.empty" by (simp add: newexact_def)
      from flm_inner_diag[OF "1.prems"(6,7) _ "1.prems"(8) el, of "[]" _ Map.empty best]
        True n0 "1.prems"(9) e el
      show ?thesis by (simp add: eqs b2j_elig)
    next
      case nel: False
      then have "new = Map.empty" "best' = best" using e by (simp_all add: eqs b2j_elig)
      with row_skip[OF nel "1.prems"(9)] show ?thesis by simp
    qed
    have "flm_outer a b ahi blo bhi i (j2len, best) = flm_outer a b ahi blo bhi (i + 1) (new, best')"
      using True e by (subst flm_outer.simps) simp
    moreover have "fst (flm_outer a b ahi blo bhi (i + 1) (new, best')) =
                   fst (snd (flm_outer a b ahi blo bhi (i + 1) (new, best')))"
      using "1.hyps"[OF True e eqs] inv "1.prems"(7,8) by simp
    ultimately show ?thesis by simp
  qed
qed

lemma extend_left_diag:
  "fst m = fst (snd m) \<Longrightarrow>
   fst (extend_left jk a b alo blo m) = fst (snd (extend_left jk a b alo blo m))"
proof (induction jk a b alo blo m rule: extend_left.induct)
  case (1 jk a b alo blo besti bestj bestsize)
  show ?case
  proof (cases "alo < besti \<and> blo < bestj \<and> isbjunk b (b ! (bestj - 1)) = jk \<and> a ! (besti - 1) = b ! (bestj - 1)")
    case True
    then show ?thesis using "1.IH"[OF True] "1.prems" extend_left_step[OF True] by simp
  next
    case False
    then show ?thesis using "1.prems" extend_left_stop[OF False] by simp
  qed
qed

lemma extend_right_diag:
  "fst m = fst (snd m) \<Longrightarrow>
   fst (extend_right jk a b ahi bhi m) = fst (snd (extend_right jk a b ahi bhi m))"
proof (induction jk a b ahi bhi m rule: extend_right.induct)
  case (1 jk a b ahi bhi besti bestj bestsize)
  show ?case
  proof (cases "besti + bestsize < ahi \<and> bestj + bestsize < bhi
         \<and> isbjunk b (b ! (bestj + bestsize)) = jk
         \<and> a ! (besti + bestsize) = b ! (bestj + bestsize)")
    case True
    then show ?thesis using "1.IH"[OF True] "1.prems" extend_right_step[OF True] by simp
  next
    case False
    then show ?thesis using "1.prems" extend_right_stop[OF False] by simp
  qed
qed

lemma extend_left_size:
  "snd (snd m) \<le> snd (snd (extend_left jk a b alo blo m))"
proof (induction jk a b alo blo m rule: extend_left.induct)
  case (1 jk a b alo blo besti bestj bestsize)
  show ?case
  proof (cases "alo < besti \<and> blo < bestj \<and> isbjunk b (b ! (bestj - 1)) = jk \<and> a ! (besti - 1) = b ! (bestj - 1)")
    case True
    then show ?thesis using "1.IH"[OF True] extend_left_step[OF True] by simp
  next
    case False
    then show ?thesis using extend_left_stop[OF False] by simp
  qed
qed

lemma extend_right_size:
  "snd (snd m) \<le> snd (snd (extend_right jk a b ahi bhi m))"
proof (induction jk a b ahi bhi m rule: extend_right.induct)
  case (1 jk a b ahi bhi besti bestj bestsize)
  show ?case
  proof (cases "besti + bestsize < ahi \<and> bestj + bestsize < bhi
         \<and> isbjunk b (b ! (bestj + bestsize)) = jk
         \<and> a ! (besti + bestsize) = b ! (bestj + bestsize)")
    case True
    then show ?thesis using "1.IH"[OF True] extend_right_step[OF True] by simp
  next
    case False
    then show ?thesis using extend_right_stop[OF False] by simp
  qed
qed

lemma extend_left_fix:
  assumes "snd (snd (extend_left jk a b alo blo (i, j, k))) \<le> k"
  shows "extend_left jk a b alo blo (i, j, k) = (i, j, k) \<and>
         \<not> (alo < i \<and> blo < j \<and> isbjunk b (b ! (j - 1)) = jk \<and> a ! (i - 1) = b ! (j - 1))"
proof (cases "alo < i \<and> blo < j \<and> isbjunk b (b ! (j - 1)) = jk \<and> a ! (i - 1) = b ! (j - 1)")
  case True
  from extend_left_size[of "(i - 1, j - 1, k + 1)" jk a b alo blo] extend_left_step[OF True, of k] assms
  show ?thesis by simp
next
  case False
  then show ?thesis using extend_left_stop[OF False] by simp
qed

lemma extend_right_fix:
  assumes "snd (snd (extend_right jk a b ahi bhi (i, j, k))) \<le> k"
  shows "extend_right jk a b ahi bhi (i, j, k) = (i, j, k) \<and>
         \<not> (i + k < ahi \<and> j + k < bhi \<and> isbjunk b (b ! (j + k)) = jk \<and> a ! (i + k) = b ! (j + k))"
proof (cases "i + k < ahi \<and> j + k < bhi \<and> isbjunk b (b ! (j + k)) = jk \<and> a ! (i + k) = b ! (j + k)")
  case True
  from extend_right_size[of "(i, j, k + 1)" jk a b ahi bhi] extend_right_step[OF True] assms
  show ?thesis by simp
next
  case False
  then show ?thesis using extend_right_stop[OF False] by simp
qed

lemma find_longest_match_same:
  assumes hi: "hi \<le> length s" and m: "find_longest_match s s lo hi lo hi = (i, j, k)"
  shows "i = j \<and> (lo < hi \<longrightarrow> 0 < k)"
proof -
  define m0 where "m0 = flm_outer s s hi lo hi lo (Map.empty, lo, lo, 0)"
  define m1 where "m1 = extend_left False s s lo lo m0"
  define m2 where "m2 = extend_right False s s hi hi m1"
  define m3 where "m3 = extend_left True s s lo lo m2"
  have m4: "extend_right True s s hi hi m3 = (i, j, k)"
    using m by (simp add: find_longest_match_def m0_def m1_def m2_def m3_def)
  have b0: "bestdiag s lo hi lo [] (lo, lo, 0)"
    by (auto simp: bestdiag_def intro: run_no)
  have r0: "rowexact s lo hi lo Map.empty" by (simp add: rowexact_def)
  have d0: "fst m0 = fst (snd m0)"
    unfolding m0_def by (rule flm_outer_diag[OF refl refl refl refl refl r0 _ hi b0]) simp
  have d3: "fst m3 = fst (snd m3)"
    unfolding m3_def m2_def m1_def
    by (intro extend_left_diag extend_right_diag d0)
  from extend_right_diag[OF d3, of True s s hi hi] m4 have ij: "i = j" by simp
  have w0: "inwin lo hi lo hi m0"
    unfolding m0_def by (intro flm_outer_bounds rowbound_empty) (simp_all add: inwin_def)
  have pos: "0 < k" if lt: "lo < hi"
  proof (rule ccontr)
    assume "\<not> 0 < k"
    then have k0: "k = 0" by simp
    obtain i0 j0 k0' where e0: "m0 = (i0, j0, k0')" by (cases m0) auto
    have s3: "snd (snd m3) = 0" using extend_right_size[of m3 True s s hi hi] m4 k0 by simp
    have s2: "snd (snd m2) = 0" using extend_left_size[of m2 True s s lo lo] s3 by (simp add: m3_def)
    have s1: "snd (snd m1) = 0" using extend_right_size[of m1 False s s hi hi] s2 by (simp add: m2_def)
    have s0: "k0' = 0" using extend_left_size[of m0 False s s lo lo] s1 by (simp add: m1_def e0)
    have ij0: "j0 = i0" using d0 e0 by simp
    have f1: "m1 = (i0, i0, 0) \<and> \<not> (lo < i0 \<and> lo < i0 \<and> isbjunk s (s ! (i0 - 1)) = False \<and> s ! (i0 - 1) = s ! (i0 - 1))"
      using extend_left_fix[of False s s lo lo i0 i0 0] s1 by (simp add: m1_def e0 s0 ij0)
    have f2: "m2 = (i0, i0, 0) \<and> \<not> (i0 + 0 < hi \<and> i0 + 0 < hi \<and> isbjunk s (s ! (i0 + 0)) = False \<and> s ! (i0 + 0) = s ! (i0 + 0))"
      using extend_right_fix[of False s s hi hi i0 i0 0] s2 f1 by (simp add: m2_def)
    have f3: "m3 = (i0, i0, 0) \<and> \<not> (lo < i0 \<and> lo < i0 \<and> isbjunk s (s ! (i0 - 1)) = True \<and> s ! (i0 - 1) = s ! (i0 - 1))"
      using extend_left_fix[of True s s lo lo i0 i0 0] s3 f2 by (simp add: m3_def)
    have f4: "\<not> (i0 + 0 < hi \<and> i0 + 0 < hi \<and> isbjunk s (s ! (i0 + 0)) = True \<and> s ! (i0 + 0) = s ! (i0 + 0))"
      using extend_right_fix[of True s s hi hi i0 i0 0] m4 k0 f3 by simp
    from f1 f3 have "\<not> lo < i0" by auto
    moreover from f2 f4 have "\<not> i0 < hi" by auto
    moreover from w0 e0 have "lo \<le> i0" by (simp add: inwin_def)
    ultimately show False using lt by simp
  qed
  from ij pos show ?thesis by simp
qed

subsection \<open>The sum of the block sizes\<close>

lemma matching_blocks_unfold:
  "find_longest_match a b alo ahi blo bhi = (i, j, k) \<Longrightarrow>
   matching_blocks a b alo ahi blo bhi =
     (if k = 0 then []
      else (i, j, k)
           # (if alo < i \<and> blo < j then matching_blocks a b alo i blo j else [])
           @ (if i + k < ahi \<and> j + k < bhi
              then matching_blocks a b (i + k) ahi (j + k) bhi else []))"
  by (subst matching_blocks.simps) simp

lemma sizes_simps [simp]: "sizes [] = 0" "sizes ((i, j, k) # ms) = k + sizes ms"
  "sizes (xs @ ys) = sizes xs + sizes ys"
  by (simp_all add: sizes_def)

lemma matching_blocks_sizes:
  "alo \<le> ahi \<Longrightarrow> blo \<le> bhi \<Longrightarrow>
   sizes (matching_blocks a b alo ahi blo bhi) \<le> min (ahi - alo) (bhi - blo)"
proof (induction a b alo ahi blo bhi rule: matching_blocks.induct)
  case (1 a b alo ahi blo bhi)
  obtain i j k where m: "find_longest_match a b alo ahi blo bhi = (i, j, k)"
    by (cases "find_longest_match a b alo ahi blo bhi") auto
  show ?case
  proof (cases "k = 0")
    case True
    then show ?thesis by (simp add: matching_blocks_unfold[OF m])
  next
    case False
    from find_longest_match_bounds[of alo ahi blo bhi a b] m "1.prems"
    have w: "alo \<le> i" "i + k \<le> ahi" "blo \<le> j" "j + k \<le> bhi"
      by (auto simp: inwin_def max_def)
    define L where "L = (if alo < i \<and> blo < j then matching_blocks a b alo i blo j else [])"
    define R where "R = (if i + k < ahi \<and> j + k < bhi
                         then matching_blocks a b (i + k) ahi (j + k) bhi else [])"
    have u: "matching_blocks a b alo ahi blo bhi = (i, j, k) # L @ R"
      using False by (simp add: matching_blocks_unfold[OF m] L_def R_def)
    have l: "sizes L \<le> min (i - alo) (j - blo)"
      using "1.IH"(1)[OF m[symmetric] refl False] w by (auto simp: L_def)
    have r: "sizes R \<le> min (ahi - (i + k)) (bhi - (j + k))"
      using "1.IH"(2)[OF m[symmetric] refl False] w by (auto simp: R_def)
    from l r w have "k + (sizes L + sizes R) \<le> ahi - alo" "k + (sizes L + sizes R) \<le> bhi - blo"
      by auto
    then show ?thesis by (simp add: u)
  qed
qed

lemma matching_blocks_same:
  "a = s \<Longrightarrow> b = s \<Longrightarrow> blo = alo \<Longrightarrow> bhi = ahi \<Longrightarrow> ahi \<le> length s \<Longrightarrow>
   sizes (matching_blocks a b alo ahi blo bhi) = ahi - alo"
proof (induction a b alo ahi blo bhi rule: matching_blocks.induct)
  case (1 a b alo ahi blo bhi)
  note eqs = "1.prems"(1-4)
  obtain i j k where m: "find_longest_match a b alo ahi blo bhi = (i, j, k)"
    by (cases "find_longest_match a b alo ahi blo bhi") auto
  from find_longest_match_same[OF "1.prems"(5), of alo i j k] m
  have ij: "j = i" and pos: "alo < ahi \<longrightarrow> 0 < k" by (simp_all add: eqs)
  from find_longest_match_bounds[of alo ahi blo bhi a b] m
  have w: "alo \<le> i" "i + k \<le> max alo ahi" by (auto simp: inwin_def)
  show ?case
  proof (cases "k = 0")
    case True
    with pos have "ahi \<le> alo" by simp
    with True show ?thesis by (simp add: matching_blocks_unfold[OF m])
  next
    case False
    with w have w': "i + k \<le> ahi" by (auto simp: max_def split: if_splits)
    define L where "L = (if alo < i \<and> blo < j then matching_blocks a b alo i blo j else [])"
    define R where "R = (if i + k < ahi \<and> j + k < bhi
                         then matching_blocks a b (i + k) ahi (j + k) bhi else [])"
    have u: "matching_blocks a b alo ahi blo bhi = (i, j, k) # L @ R"
      using False by (simp add: matching_blocks_unfold[OF m] L_def R_def)
    have l: "sizes L = i - alo"
      using "1.IH"(1)[OF m[symmetric] refl False _ eqs(1,2)] w w' "1.prems"(5)
      by (auto simp: L_def eqs ij)
    have r: "sizes R = ahi - (i + k)"
      using "1.IH"(2)[OF m[symmetric] refl False _ eqs(1,2)] w w' "1.prems"(5)
      by (auto simp: R_def eqs ij)
    from l r w w' show ?thesis by (simp add: u)
  qed
qed

lemma matches_same: "matches s s = length s"
  using matching_blocks_same[of s s s 0 0 "length s" "length s"]
  by (simp add: matches_def)

lemma matches_le: "matches a b \<le> min (length a) (length b)"
  using matching_blocks_sizes[of 0 "length a" 0 "length b" a b]
  by (simp add: matches_def)

lemma ratio_same: "ratio s s = 1"
  by (simp add: ratio_def calculate_ratio_def matches_same)

lemma ratio_bounds: "0 \<le> ratio a b \<and> ratio a b \<le> 1"
proof -
  define n where "n = length a + length b"
  define x where "x = matches a b"
  have r: "ratio a b = (if n \<noteq> 0 then 2 * real x / real n else 1)"
    by (simp only: ratio_def calculate_ratio_def n_def x_def)
  have le: "2 * x \<le> n" using matches_le[of a b] by (simp add: n_def x_def)
  show ?thesis
  proof (cases "n = 0")
    case True
    then show ?thesis by (simp add: r)
  next
    case False
    from le have "real (2 * x) \<le> real n" by (rule of_nat_mono)
    then have "2 * real x \<le> real n" by simp
    moreover have "0 < real n" using False by simp
    ultimately have "2 * real x / real n \<le> 1" by (simp add: divide_le_eq_1_pos)
    then show ?thesis using False by (simp add: r)
  qed
qed

section \<open>Properties of the distance\<close>

lemma upper_Nil_iff: "upper s = [] \<longleftrightarrow> s = []"
  by (simp add: upper_def)

lemma length_upper: "length (upper s) = length s"
  by (simp add: upper_def)

lemma ro_distance_same: "ro_distance a a = 0"
  by (simp add: ro_distance_def ratio_same)

lemma ro_distance_bounds: "0 \<le> ro_distance a b \<and> ro_distance a b \<le> 1"
  using ratio_bounds[of "upper a" "upper b"] by (simp add: ro_distance_def)

lemma ro_distance_sq: "0 \<le> (ro_distance a b)\<^sup>2 \<and> (ro_distance a b)\<^sup>2 \<le> 1"
  using ro_distance_bounds[of a b] by (simp add: power_le_one)

lemma ro_distance_pos: "length a \<noteq> length b \<Longrightarrow> 0 < ro_distance a b"
proof -
  assume ne: "length a \<noteq> length b"
  define n where "n = length (upper a) + length (upper b)"
  define x where "x = matches (upper a) (upper b)"
  have "x \<le> min (length (upper a)) (length (upper b))" unfolding x_def by (rule matches_le)
  then have lt: "2 * x < n" using ne by (simp add: n_def length_upper min_def split: if_splits)
  then have n0: "n \<noteq> 0" by simp
  from lt have "real (2 * x) < real n" by (simp only: of_nat_less_iff)
  then have "2 * real x < real n" by simp
  moreover have "0 < real n" using n0 by simp
  ultimately have "2 * real x / real n < 1" by (simp add: divide_less_eq_1_pos)
  then show ?thesis using n0 by (simp add: ro_distance_def ratio_def calculate_ratio_def n_def x_def)
qed

lemma matches_Nil: "matches a [] = 0" "matches [] a = 0"
  using matches_le[of a "[]"] matches_le[of "[]" a] by simp_all

lemma aceh_f_0: "aceh_f 0 = 0"
  by (simp add: aceh_f_def)

lemma aceh_f_bounds: "0 \<le> x \<Longrightarrow> 0 \<le> aceh_f x \<and> aceh_f x < 1"
proof -
  assume "0 \<le> x"
  then have "0 \<le> ln (1 + x)" by simp
  then show ?thesis by (simp add: aceh_f_def)
qed

lemma aceh_f_pos: "0 < x \<Longrightarrow> 0 < aceh_f x"
proof -
  assume "0 < x"
  then have "0 < ln (1 + x)" by simp
  then show ?thesis by (simp add: aceh_f_def)
qed

lemma aceh_f_mono: "0 \<le> x \<Longrightarrow> x \<le> y \<Longrightarrow> aceh_f x \<le> aceh_f y"
proof -
  assume x: "0 \<le> x" and xy: "x \<le> y"
  define u where "u = ln (1 + x)"
  define v where "v = ln (1 + y)"
  have u: "0 \<le> u" using x by (simp add: u_def)
  have uv: "u \<le> v" using x xy by (simp add: u_def v_def)
  have "u / (1 + u) \<le> v / (1 + v)"
    using u uv by (simp add: field_simps)
  then show ?thesis by (simp add: aceh_f_def u_def v_def)
qed

lemma aceh_distance_parsed:
  "arrow_get a = Some ad \<Longrightarrow> arrow_get b = Some bd \<Longrightarrow>
   aceh_distance arrow_get a b = Inr (aceh_f (\<bar>real_of_int (timedelta_days ad bd)\<bar> / 365))"
  by (simp add: aceh_distance_def aceh_f_def Let_def)

lemma aceh_distance_fails:
  "arrow_get a = None \<or> arrow_get b = None \<Longrightarrow> aceh_distance arrow_get a b = Inl ParserError"
  by (auto simp: aceh_distance_def split: option.splits)

lemma get_tracks_distance_parsed:
  "aceh_distance arrow_get a_year b_year = Inr t \<Longrightarrow>
   get_tracks_distance arrow_get a_track a_artist a_album a_year b_track b_artist b_album b_year =
   Inr (sqrt ((ro_distance a_track b_track)\<^sup>2 + (ro_distance a_artist b_artist)\<^sup>2
              + (ro_distance a_album b_album)\<^sup>2 + t\<^sup>2) / 2)"
  by (simp add: get_tracks_distance_def Let_def add.assoc)

lemma get_tracks_distance_fails:
  "arrow_get a_year = None \<or> arrow_get b_year = None \<Longrightarrow>
   get_tracks_distance arrow_get a_track a_artist a_album a_year b_track b_artist b_album b_year =
   Inl ParserError"
  by (simp add: get_tracks_distance_def Let_def aceh_distance_fails)

lemma norm4_bounds:
  fixes p q r t :: real
  assumes "{p, q, r} \<subseteq> {0..1}" and "0 \<le> t \<and> t < 1"
  shows "0 \<le> sqrt (p + q + r + t) / 2 \<and> sqrt (p + q + r + t) / 2 < 1"
proof -
  have "p + q + r + t < 4" using assms by simp
  then have "sqrt (p + q + r + t) < sqrt 4" by (simp only: real_sqrt_less_iff)
  moreover have "sqrt 4 = (2::real)" using real_sqrt_abs[of 2] by simp
  moreover have "0 \<le> p + q + r + t" using assms by simp
  ultimately show ?thesis by simp
qed

lemma civil_2015_10_23: "civil ''2015'' ''10'' ''23'' = Some 16731"
  by (simp add: civil_def all_decimal_def is_decimal_def decimal_value_def days_in_month_def is_leap_def
      days_from_civil_def Let_def)

lemma iso_get_2015_10_23: "iso_get ''2015-10-23'' = Some 1445558400000000"
  by (simp add: iso_get_def iso_date_def civil_2015_10_23)

lemma iso_time_07: "iso_time ''07:00:00'' = Some 25200"
  by (simp add: iso_time_def all_decimal_def is_decimal_def decimal_value_def Let_def)

lemma iso_get_2015_10_23_07: "iso_get ''2015-10-23T07:00:00Z'' = Some 1445583600000000"
  by (simp add: iso_get_def iso_date_def civil_2015_10_23 iso_time_07)

lemma iso_get_empty: "iso_get '''' = None"
  by (simp add: iso_get_def iso_date_def)

text \<open>Claim C5: two track descriptors with the same title, artist and album and the same
  release date are at distance exactly 0, whenever that date parses.\<close>

theorem get_tracks_distance_identical:
  "arrow_get a_year = Some ad \<Longrightarrow>
   get_tracks_distance arrow_get a_track a_artist a_album a_year
                       a_track a_artist a_album a_year = Inr 0"
proof -
  assume p: "arrow_get a_year = Some ad"
  have "aceh_distance arrow_get a_year a_year = Inr 0"
    using aceh_distance_parsed[of arrow_get a_year ad a_year ad] p
    by (simp add: timedelta_days_def aceh_f_0)
  from get_tracks_distance_parsed[OF this] show ?thesis
    by (simp add: ro_distance_same)
qed

theorem get_tracks_distance_identical_witness:
  "iso_get ''2015-10-23'' = Some 1445558400000000 \<and>
   get_tracks_distance iso_get ''Hello'' ''Adele'' ''25'' ''2015-10-23''
                               ''Hello'' ''Adele'' ''25'' ''2015-10-23'' = Inr 0"
  using get_tracks_distance_identical[of iso_get "''2015-10-23''" 1445558400000000
      "''Hello''" "''Adele''" "''25''"] iso_get_2015_10_23 by simp

text \<open>Claim C6: when both dates parse, the distance is the square root of the sum of the
  four squared sub-distances, divided by 2; it is never negative and at most 1.2 (in
  fact below 1).\<close>

theorem get_tracks_distance_bounds:
  assumes "arrow_get a_year = Some ad" and "arrow_get b_year = Some bd"
  shows "\<exists>t d. aceh_distance arrow_get a_year b_year = Inr t
           \<and> d = sqrt ((ro_distance a_track b_track)\<^sup>2 + (ro_distance a_artist b_artist)\<^sup>2
                       + (ro_distance a_album b_album)\<^sup>2 + t\<^sup>2) / 2
           \<and> get_tracks_distance arrow_get a_track a_artist a_album a_year
                                 b_track b_artist b_album b_year = Inr d
           \<and> 0 \<le> d \<and> d \<le> 12 / 10 \<and> d < 1"
proof -
  define t where "t = aceh_f (\<bar>real_of_int (timedelta_days ad bd)\<bar> / 365)"
  have a: "aceh_distance arrow_get a_year b_year = Inr t"
    using aceh_distance_parsed[of arrow_get a_year ad b_year bd] assms by (simp add: t_def)
  have tb: "0 \<le> t" "t < 1" using aceh_f_bounds[of "\<bar>real_of_int (timedelta_days ad bd)\<bar> / 365"]
    by (simp_all add: t_def)
  then have t2: "0 \<le> t\<^sup>2" "t\<^sup>2 < 1" by (simp_all add: power_less_one_iff abs_square_less_1)
  define d where "d = sqrt ((ro_distance a_track b_track)\<^sup>2 + (ro_distance a_artist b_artist)\<^sup>2
                       + (ro_distance a_album b_album)\<^sup>2 + t\<^sup>2) / 2"
  have b: "0 \<le> d \<and> d < 1"
    unfolding d_def
    using norm4_bounds[of "(ro_distance a_track b_track)\<^sup>2" "(ro_distance a_artist b_artist)\<^sup>2"
        "(ro_distance a_album b_album)\<^sup>2" "t\<^sup>2"] ro_distance_sq t2 by simp
  have g: "get_tracks_distance arrow_get a_track a_artist a_album a_year
          b_track b_artist b_album b_year = Inr d"
    using get_tracks_distance_parsed[OF a] by (simp add: d_def)
  show ?thesis
  proof (intro exI conjI)
    show "aceh_distance arrow_get a_year b_year = Inr t" by (rule a)
    show "d = sqrt ((ro_distance a_track b_track)\<^sup>2 + (ro_distance a_artist b_artist)\<^sup>2
                       + (ro_distance a_album b_album)\<^sup>2 + t\<^sup>2) / 2" by (rule d_def)
    show "get_tracks_distance arrow_get a_track a_artist a_album a_year
          b_track b_artist b_album b_year = Inr d" by (rule g)
    show "0 \<le> d" "d < 1" "d \<le> 12 / 10" using b by simp_all
  qed
qed

theorem get_tracks_distance_bounds_witness:
  "iso_get ''2015-10-23'' = Some 1445558400000000 \<and>
   iso_get ''2015-10-23T07:00:00Z'' = Some 1445583600000000 \<and>
   (\<exists>t d. aceh_distance iso_get ''2015-10-23'' ''2015-10-23T07:00:00Z'' = Inr t
           \<and> d = sqrt ((ro_distance ''Hello'' ''Hello'')\<^sup>2 + (ro_distance ''Adele'' ''Adele'')\<^sup>2
                       + (ro_distance ''25'' ''25 (Deluxe)'')\<^sup>2 + t\<^sup>2) / 2
           \<and> get_tracks_distance iso_get ''Hello'' ''Adele'' ''25'' ''2015-10-23''
                  ''Hello'' ''Adele'' ''25 (Deluxe)'' ''2015-10-23T07:00:00Z'' = Inr d
           \<and> 0 \<le> d \<and> d \<le> 12 / 10 \<and> d < 1)"
  using get_tracks_distance_bounds[of iso_get "''2015-10-23''" 1445558400000000
      "''2015-10-23T07:00:00Z''" 1445583600000000 "''Hello''" "''Hello''" "''Adele''" "''Adele''"
      "''25''" "''25 (Deluxe)''"]
    iso_get_2015_10_23 iso_get_2015_10_23_07 by (simp only: simp_thms)

text \<open>Claim C8: the ratio divides only by a length that is not zero.  For two empty
  strings it is 1, so the sub-distance of the field is 0; when exactly one string is
  empty it is 0, so the sub-distance is 1.\<close>

theorem ratio_empty_strings:
  "ratio [] [] = 1 \<and> ro_distance [] [] = 0
   \<and> (a \<noteq> [] \<longrightarrow> ratio a [] = 0 \<and> ratio [] a = 0 \<and> ro_distance a [] = 1 \<and> ro_distance [] a = 1)
   \<and> (a \<noteq> [] \<or> b \<noteq> [] \<longrightarrow>
        length a + length b \<noteq> 0 \<and> ratio a b = 2 * real (matches a b) / real (length a + length b))"
proof -
  have r: "ratio x [] = 0" "ratio [] x = 0" if "x \<noteq> []" for x
    using that by (simp_all add: ratio_def calculate_ratio_def matches_Nil)
  have "ratio (upper a) [] = 0" "ratio [] (upper a) = 0" if "a \<noteq> []"
    using r[of "upper a"] that by (simp_all add: upper_Nil_iff)
  then have d: "a \<noteq> [] \<longrightarrow> ro_distance a [] = 1 \<and> ro_distance [] a = 1"
    by (simp add: ro_distance_def upper_def)
  have e: "ratio [] [] = 1" "ro_distance [] [] = 0"
    by (simp_all add: ratio_def calculate_ratio_def ro_distance_def upper_def)
  have g: "a \<noteq> [] \<or> b \<noteq> [] \<longrightarrow>
        length a + length b \<noteq> 0 \<and> ratio a b = 2 * real (matches a b) / real (length a + length b)"
    by (auto simp: ratio_def calculate_ratio_def)
  from r[of a] d e g show ?thesis by blast
qed

theorem ratio_empty_strings_witness:
  "ratio [] [] = 1 \<and> ro_distance [] [] = 0
   \<and> ratio ''Hello'' [] = 0 \<and> ratio [] ''Hello'' = 0
   \<and> ro_distance ''Hello'' [] = 1 \<and> ro_distance [] ''Hello'' = 1
   \<and> ratio ''Hello'' [] = 2 * real (matches ''Hello'' []) / real (length ''Hello'' + length ([] :: string))"
  using ratio_empty_strings[of "''Hello''" "[]"] by simp

section \<open>The temporal sub-distance\<close>

text \<open>The value of \<open>aceh_distance\<close> depends on the two dates through the absolute value
  of \<open>timedelta_days\<close> only.  In that number it is monotone; it is 0 when the number is 0,
  as for two equal instants, and it stays below 1.\<close>

lemma aceh_distance_day_gap:
  assumes "arrow_get a = Some ad" and "arrow_get b = Some bd"
    and "arrow_get a' = Some ad'" and "arrow_get b' = Some bd'"
  shows "\<exists>f f'. aceh_distance arrow_get a b = Inr f \<and> aceh_distance arrow_get a' b' = Inr f'
           \<and> (\<bar>timedelta_days ad bd\<bar> \<le> \<bar>timedelta_days ad' bd'\<bar> \<longrightarrow> f \<le> f')
           \<and> (timedelta_days ad bd = 0 \<longrightarrow> f = 0)
           \<and> (ad = bd \<longrightarrow> f = 0)
           \<and> 0 \<le> f \<and> f < 1"
proof -
  define n where "n = \<bar>timedelta_days ad bd\<bar>"
  define n' where "n' = \<bar>timedelta_days ad' bd'\<bar>"
  define f where "f = aceh_f (real_of_int n / 365)"
  define f' where "f' = aceh_f (real_of_int n' / 365)"
  have e: "aceh_distance arrow_get a b = Inr f"
    using aceh_distance_parsed[of arrow_get a ad b bd] assms(1,2) by (simp add: f_def n_def)
  have e': "aceh_distance arrow_get a' b' = Inr f'"
    using aceh_distance_parsed[of arrow_get a' ad' b' bd'] assms(3,4) by (simp add: f'_def n'_def)
  have n0: "0 \<le> n" by (simp add: n_def)
  have m: "f \<le> f'" if "n \<le> n'"
    unfolding f_def f'_def using that n0 by (intro aceh_f_mono) simp_all
  have z: "f = 0" if "timedelta_days ad bd = 0"
    using that by (simp add: f_def n_def aceh_f_0)
  have z': "f = 0" if "ad = bd"
    using that by (simp add: f_def n_def aceh_f_0 timedelta_days_def)
  have b: "0 \<le> f" "f < 1"
    using aceh_f_bounds[of "real_of_int n / 365"] n0 by (simp_all add: f_def)
  show ?thesis
  proof (intro exI conjI impI)
    show "aceh_distance arrow_get a b = Inr f" by (rule e)
    show "aceh_distance arrow_get a' b' = Inr f'" by (rule e')
    show "f \<le> f'" if "\<bar>timedelta_days ad bd\<bar> \<le> \<bar>timedelta_days ad' bd'\<bar>"
      using m that by (simp add: n_def n'_def)
    show "f = 0" if "timedelta_days ad bd = 0" using z that by simp
    show "f = 0" if "ad = bd" using z' that by simp
    show "0 \<le> f" "f < 1" using b by simp_all
  qed
qed

lemma aceh_distance_day_gap_example:
  "iso_get ''2015-10-23T07:00:00Z'' = Some 1445583600000000
   \<and> iso_get ''2015-10-23'' = Some 1445558400000000
   \<and> (\<exists>f f'. aceh_distance iso_get ''2015-10-23T07:00:00Z'' ''2015-10-23'' = Inr f
         \<and> aceh_distance iso_get ''2015-10-23'' ''2015-10-23T07:00:00Z'' = Inr f'
         \<and> f \<le> f' \<and> f = 0 \<and> 0 \<le> f \<and> f < 1)"
proof -
  have p: "iso_get ''2015-10-23T07:00:00Z'' = Some 1445583600000000"
    "iso_get ''2015-10-23'' = Some 1445558400000000"
    by (rule iso_get_2015_10_23_07, rule iso_get_2015_10_23)
  have g: "\<bar>timedelta_days 1445583600000000 1445558400000000\<bar>
           \<le> \<bar>timedelta_days 1445558400000000 1445583600000000\<bar>"
    "timedelta_days 1445583600000000 1445558400000000 = 0"
    by (simp_all add: timedelta_days_def)
  from aceh_distance_day_gap[of iso_get "''2015-10-23T07:00:00Z''" 1445583600000000
      "''2015-10-23''" 1445558400000000 "''2015-10-23''" 1445558400000000
      "''2015-10-23T07:00:00Z''" 1445583600000000] p g
  show ?thesis by (simp only: simp_thms) blast
qed

text \<open>Claim C7 says that the temporal sub-distance is 0 when the two dates are the same
  day.  \<open>get_best_match\<close> passes the date of the Spotify album first and the time stamp
  of the iTunes track second.  For \<^verbatim>\<open>2015-10-23\<close> and \<^verbatim>\<open>2015-10-23T07:00:00Z\<close> the
  difference is minus seven hours, \<^verbatim>\<open>days\<close> rounds it down to \<open>-1\<close>, and
  \<^verbatim>\<open>math.fabs\<close> makes a gap of one day of it: the value is not 0.  With the two
  arguments exchanged it is 0.\<close>

theorem aceh_distance_same_day:
  "iso_date (take 10 ''2015-10-23'') = iso_date (take 10 ''2015-10-23T07:00:00Z'')
   \<and> aceh_distance iso_get ''2015-10-23'' ''2015-10-23T07:00:00Z'' = Inr (aceh_f (1 / 365))
   \<and> aceh_f (1 / 365) \<noteq> 0
   \<and> aceh_distance iso_get ''2015-10-23T07:00:00Z'' ''2015-10-23'' = Inr 0"
proof -
  have "aceh_distance iso_get ''2015-10-23'' ''2015-10-23T07:00:00Z'' = Inr (aceh_f (1 / 365))"
    using aceh_distance_parsed[of iso_get "''2015-10-23''" 1445558400000000
        "''2015-10-23T07:00:00Z''" 1445583600000000]
    by (simp add: iso_get_2015_10_23 iso_get_2015_10_23_07 timedelta_days_def)
  moreover have "aceh_distance iso_get ''2015-10-23T07:00:00Z'' ''2015-10-23'' = Inr 0"
    using aceh_distance_parsed[of iso_get "''2015-10-23T07:00:00Z''" 1445583600000000
        "''2015-10-23''" 1445558400000000]
    by (simp add: iso_get_2015_10_23 iso_get_2015_10_23_07 timedelta_days_def aceh_f_0)
  moreover have "aceh_f (1 / 365) \<noteq> 0" using aceh_f_pos[of "1 / 365"] by simp
  ultimately show ?thesis by simp
qed

section \<open>The best match of the playlist export\<close>

lemma candidate_distance_parsed:
  "arrow_get a_year = Some ad \<Longrightarrow> arrow_get (releaseDate tr) = Some bd \<Longrightarrow>
   \<exists>d. candidate_distance arrow_get a_track a_artist a_album a_year tr = Inr d"
proof -
  assume "arrow_get a_year = Some ad" "arrow_get (releaseDate tr) = Some bd"
  then have "aceh_distance arrow_get a_year (releaseDate tr)
             = Inr (aceh_f (\<bar>real_of_int (timedelta_days ad bd)\<bar> / 365))"
    by (rule aceh_distance_parsed)
  from get_tracks_distance_parsed[OF this]
  have "candidate_distance arrow_get a_track a_artist a_album a_year tr =
        Inr (sqrt ((ro_distance a_track (trackName tr))\<^sup>2
                   + (ro_distance a_artist (artistName tr))\<^sup>2
                   + (ro_distance a_album (collectionName tr))\<^sup>2
                   + (aceh_f (\<bar>real_of_int (timedelta_days ad bd)\<bar> / 365))\<^sup>2) / 2)"
    by (simp only: candidate_distance_def)
  then show ?thesis by (rule exI)
qed

lemma best_match_loop_Cons:
  "candidate_distance arrow_get a_track a_artist a_album a_year tr = Inr d \<Longrightarrow>
   best_match_loop arrow_get a_track a_artist a_album a_year (tr # tracks) (nearest, best_match) =
   best_match_loop arrow_get a_track a_artist a_album a_year tracks
     (if d < nearest then (d, Some tr) else (nearest, best_match))"
  by (simp add: candidate_distance_def)

lemma best_match_loop_spec:
  assumes "\<forall>tr\<in>set tracks. \<exists>d. candidate_distance arrow_get a_track a_artist a_album a_year tr = Inr d"
  shows "\<exists>n b. best_match_loop arrow_get a_track a_artist a_album a_year tracks (n0, b0) = Inr (n, b)
           \<and> n \<le> n0
           \<and> (\<forall>tr\<in>set tracks. \<forall>d.
                  candidate_distance arrow_get a_track a_artist a_album a_year tr = Inr d \<longrightarrow> n \<le> d)
           \<and> ((n = n0 \<and> b = b0)
                \<or> (n < n0 \<and> (\<exists>tr pre post. b = Some tr \<and> tracks = pre @ tr # post
                      \<and> candidate_distance arrow_get a_track a_artist a_album a_year tr = Inr n
                      \<and> (\<forall>tr'\<in>set pre. \<forall>d.
                            candidate_distance arrow_get a_track a_artist a_album a_year tr' = Inr d
                            \<longrightarrow> n < d))))"
  using assms
proof (induction tracks arbitrary: n0 b0)
  case Nil
  then show ?case by simp
next
  case (Cons tr tracks)
  let ?D = "candidate_distance arrow_get a_track a_artist a_album a_year"
  let ?loop = "best_match_loop arrow_get a_track a_artist a_album a_year"
  from Cons.prems obtain d where d: "?D tr = Inr d" by auto
  from Cons.prems have rest: "\<forall>tr\<in>set tracks. \<exists>d. ?D tr = Inr d" by simp
  show ?case
  proof (cases "d < n0")
    case True
    from Cons.IH[OF rest, of d "Some tr"] obtain n b where
      r: "?loop tracks (d, Some tr) = Inr (n, b)" and le: "n \<le> d"
      and all: "\<forall>tr\<in>set tracks. \<forall>d. ?D tr = Inr d \<longrightarrow> n \<le> d"
      and alt: "(n = d \<and> b = Some tr)
                \<or> (n < d \<and> (\<exists>tr' pre post. b = Some tr' \<and> tracks = pre @ tr' # post
                      \<and> ?D tr' = Inr n \<and> (\<forall>x\<in>set pre. \<forall>d. ?D x = Inr d \<longrightarrow> n < d)))"
      by blast
    have run: "?loop (tr # tracks) (n0, b0) = Inr (n, b)"
      using best_match_loop_Cons[OF d, of tracks n0 b0] True r by simp
    have all': "\<forall>x\<in>set (tr # tracks). \<forall>e. ?D x = Inr e \<longrightarrow> n \<le> e"
      using all le d by auto
    have lt: "n < n0" using le True by simp
    have "\<exists>tr' pre post. b = Some tr' \<and> tr # tracks = pre @ tr' # post
            \<and> ?D tr' = Inr n \<and> (\<forall>x\<in>set pre. \<forall>d. ?D x = Inr d \<longrightarrow> n < d)"
      using alt
    proof
      assume "n = d \<and> b = Some tr"
      then have "b = Some tr \<and> tr # tracks = [] @ tr # tracks \<and> ?D tr = Inr n
                 \<and> (\<forall>x\<in>set []. \<forall>d. ?D x = Inr d \<longrightarrow> n < d)"
        using d by simp
      then show ?thesis by blast
    next
      assume "n < d \<and> (\<exists>tr' pre post. b = Some tr' \<and> tracks = pre @ tr' # post
                      \<and> ?D tr' = Inr n \<and> (\<forall>x\<in>set pre. \<forall>d. ?D x = Inr d \<longrightarrow> n < d))"
      then obtain tr' pre post where nd: "n < d" and b: "b = Some tr'"
        and sp: "tracks = pre @ tr' # post" and dn: "?D tr' = Inr n"
        and pre: "\<forall>x\<in>set pre. \<forall>d. ?D x = Inr d \<longrightarrow> n < d" by blast
      have "b = Some tr' \<and> tr # tracks = (tr # pre) @ tr' # post \<and> ?D tr' = Inr n
            \<and> (\<forall>x\<in>set (tr # pre). \<forall>e. ?D x = Inr e \<longrightarrow> n < e)"
        using b sp dn pre nd d by auto
      then show ?thesis by blast
    qed
    with run le all' lt True show ?thesis by (intro exI[of _ n] exI[of _ b]) simp
  next
    case False
    from Cons.IH[OF rest, of n0 b0] obtain n b where
      r: "?loop tracks (n0, b0) = Inr (n, b)" and le: "n \<le> n0"
      and all: "\<forall>tr\<in>set tracks. \<forall>d. ?D tr = Inr d \<longrightarrow> n \<le> d"
      and alt: "(n = n0 \<and> b = b0)
                \<or> (n < n0 \<and> (\<exists>tr' pre post. b = Some tr' \<and> tracks = pre @ tr' # post
                      \<and> ?D tr' = Inr n \<and> (\<forall>x\<in>set pre. \<forall>d. ?D x = Inr d \<longrightarrow> n < d)))"
      by blast
    have run: "?loop (tr # tracks) (n0, b0) = Inr (n, b)"
      using best_match_loop_Cons[OF d, of tracks n0 b0] False r by simp
    have all': "\<forall>x\<in>set (tr # tracks). \<forall>e. ?D x = Inr e \<longrightarrow> n \<le> e"
      using all le d False by auto
    have "(n = n0 \<and> b = b0)
          \<or> (n < n0 \<and> (\<exists>tr' pre post. b = Some tr' \<and> tr # tracks = pre @ tr' # post
                \<and> ?D tr' = Inr n \<and> (\<forall>x\<in>set pre. \<forall>d. ?D x = Inr d \<longrightarrow> n < d)))"
      using alt
    proof
      assume "n = n0 \<and> b = b0"
      then show ?thesis by simp
    next
      assume "n < n0 \<and> (\<exists>tr' pre post. b = Some tr' \<and> tracks = pre @ tr' # post
                      \<and> ?D tr' = Inr n \<and> (\<forall>x\<in>set pre. \<forall>d. ?D x = Inr d \<longrightarrow> n < d))"
      then obtain tr' pre post where nd: "n < n0" and b: "b = Some tr'"
        and sp: "tracks = pre @ tr' # post" and dn: "?D tr' = Inr n"
        and pre: "\<forall>x\<in>set pre. \<forall>d. ?D x = Inr d \<longrightarrow> n < d" by blast
      have "b = Some tr' \<and> tr # tracks = (tr # pre) @ tr' # post \<and> ?D tr' = Inr n
            \<and> (\<forall>x\<in>set (tr # pre). \<forall>e. ?D x = Inr e \<longrightarrow> n < e)"
        using b sp dn pre nd d False by auto
      with nd show ?thesis by blast
    qed
    with run le all' show ?thesis by (intro exI[of _ n] exI[of _ b]) simp
  qed
qed

text \<open>Claim C9: when the distance of every track can be computed, \<open>get_best_match\<close>
  returns a pair \<open>(nearest, best)\<close> where \<open>nearest\<close> is at most every distance of the
  list.  If \<open>best\<close> is a track, its distance is \<open>nearest\<close>, it is below 1, and every
  track before it in the list is strictly farther away.  If \<open>best\<close> is \<open>None\<close> then
  \<open>nearest\<close> is 1; this is the result for the empty list and whenever no track is
  closer than 1.\<close>

theorem get_best_match_nearest:
  assumes "\<forall>tr\<in>set tracks. \<exists>d. candidate_distance arrow_get a_track a_artist a_album a_year tr = Inr d"
  shows "\<exists>nearest best.
           get_best_match arrow_get a_track a_artist a_album a_year tracks = Inr (nearest, best)
           \<and> (\<forall>tr\<in>set tracks. \<forall>d.
                 candidate_distance arrow_get a_track a_artist a_album a_year tr = Inr d
                 \<longrightarrow> nearest \<le> d)
           \<and> (case best of
                 None \<Rightarrow> nearest = 1
               | Some tr \<Rightarrow>
                   nearest < 1
                   \<and> candidate_distance arrow_get a_track a_artist a_album a_year tr = Inr nearest
                   \<and> (\<exists>pre post. tracks = pre @ tr # post
                        \<and> (\<forall>tr'\<in>set pre. \<forall>d.
                              candidate_distance arrow_get a_track a_artist a_album a_year tr' = Inr d
                              \<longrightarrow> nearest < d)))
           \<and> ((\<forall>tr\<in>set tracks. \<forall>d.
                  candidate_distance arrow_get a_track a_artist a_album a_year tr = Inr d \<longrightarrow> 1 \<le> d)
                \<longrightarrow> nearest = 1 \<and> best = None)"
proof -
  let ?D = "candidate_distance arrow_get a_track a_artist a_album a_year"
  from best_match_loop_spec[OF assms, of 1 None] obtain n b where
    r: "best_match_loop arrow_get a_track a_artist a_album a_year tracks (1, None) = Inr (n, b)"
    and all: "\<forall>tr\<in>set tracks. \<forall>d. ?D tr = Inr d \<longrightarrow> n \<le> d"
    and alt: "(n = 1 \<and> b = None)
              \<or> (n < 1 \<and> (\<exists>tr pre post. b = Some tr \<and> tracks = pre @ tr # post
                    \<and> ?D tr = Inr n \<and> (\<forall>x\<in>set pre. \<forall>d. ?D x = Inr d \<longrightarrow> n < d)))"
    by blast
  have c: "case b of None \<Rightarrow> n = 1
           | Some tr \<Rightarrow> n < 1 \<and> ?D tr = Inr n
               \<and> (\<exists>pre post. tracks = pre @ tr # post
                    \<and> (\<forall>x\<in>set pre. \<forall>d. ?D x = Inr d \<longrightarrow> n < d))"
    using alt
  proof
    assume "n = 1 \<and> b = None" then show ?thesis by simp
  next
    assume "n < 1 \<and> (\<exists>tr pre post. b = Some tr \<and> tracks = pre @ tr # post
                    \<and> ?D tr = Inr n \<and> (\<forall>x\<in>set pre. \<forall>d. ?D x = Inr d \<longrightarrow> n < d))"
    then obtain tr pre post where "n < 1" "b = Some tr" "tracks = pre @ tr # post" "?D tr = Inr n"
      "\<forall>x\<in>set pre. \<forall>d. ?D x = Inr d \<longrightarrow> n < d" by blast
    then have "n < 1 \<and> ?D tr = Inr n
               \<and> (\<exists>pre post. tracks = pre @ tr # post
                    \<and> (\<forall>x\<in>set pre. \<forall>d. ?D x = Inr d \<longrightarrow> n < d))" by blast
    with \<open>b = Some tr\<close> show ?thesis by simp
  qed
  have e: "n = 1 \<and> b = None" if h: "\<forall>tr\<in>set tracks. \<forall>d. ?D tr = Inr d \<longrightarrow> 1 \<le> d"
    using alt
  proof
    assume "n = 1 \<and> b = None" then show ?thesis .
  next
    assume "n < 1 \<and> (\<exists>tr pre post. b = Some tr \<and> tracks = pre @ tr # post
                    \<and> ?D tr = Inr n \<and> (\<forall>x\<in>set pre. \<forall>d. ?D x = Inr d \<longrightarrow> n < d))"
    then obtain tr pre post where "n < 1" "tracks = pre @ tr # post" "?D tr = Inr n" by blast
    with h have False by auto
    then show ?thesis ..
  qed
  show ?thesis
    using r all c e by (intro exI[of _ n] exI[of _ b]) (simp add: get_best_match_def)
qed

lemma example_candidate_distances:
  "\<forall>tr\<in>set [tribute_am, hello_am].
     \<exists>d. candidate_distance iso_get ''Hello'' ''Adele'' ''25'' ''2015-10-23'' tr = Inr d"
proof -
  have "\<exists>d. candidate_distance iso_get ''Hello'' ''Adele'' ''25'' ''2015-10-23'' tr = Inr d"
    if "releaseDate tr = ''2015-10-23T07:00:00Z''" for tr
    by (rule candidate_distance_parsed[where ad = 1445558400000000 and bd = 1445583600000000])
       (simp_all add: that iso_get_2015_10_23 iso_get_2015_10_23_07)
  then show ?thesis by (simp add: tribute_am_def hello_am_def)
qed

theorem get_best_match_nearest_witness:
  "(\<exists>d. candidate_distance iso_get ''Hello'' ''Adele'' ''25'' ''2015-10-23'' tribute_am = Inr d)
   \<and> (\<exists>d. candidate_distance iso_get ''Hello'' ''Adele'' ''25'' ''2015-10-23'' hello_am = Inr d)
   \<and> get_best_match iso_get ''Hello'' ''Adele'' ''25'' ''2015-10-23'' [] = Inr (1, None)
   \<and> (\<exists>nearest best.
           get_best_match iso_get ''Hello'' ''Adele'' ''25'' ''2015-10-23'' [tribute_am, hello_am]
             = Inr (nearest, best)
           \<and> (\<forall>tr\<in>set [tribute_am, hello_am]. \<forall>d.
                 candidate_distance iso_get ''Hello'' ''Adele'' ''25'' ''2015-10-23'' tr = Inr d
                 \<longrightarrow> nearest \<le> d)
           \<and> (case best of
                 None \<Rightarrow> nearest = 1
               | Some tr \<Rightarrow>
                   nearest < 1
                   \<and> candidate_distance iso_get ''Hello'' ''Adele'' ''25'' ''2015-10-23'' tr = Inr nearest
                   \<and> (\<exists>pre post. [tribute_am, hello_am] = pre @ tr # post
                        \<and> (\<forall>tr'\<in>set pre. \<forall>d.
                              candidate_distance iso_get ''Hello'' ''Adele'' ''25'' ''2015-10-23'' tr' = Inr d
                              \<longrightarrow> nearest < d))))"
proof -
  have e: "get_best_match iso_get ''Hello'' ''Adele'' ''25'' ''2015-10-23'' [] = Inr (1, None)"
    by (simp add: get_best_match_def)
  from example_candidate_distances
  have h: "\<exists>d. candidate_distance iso_get ''Hello'' ''Adele'' ''25'' ''2015-10-23'' tribute_am = Inr d"
    "\<exists>d. candidate_distance iso_get ''Hello'' ''Adele'' ''25'' ''2015-10-23'' hello_am = Inr d"
    by simp_all
  from get_best_match_nearest[OF example_candidate_distances] h e show ?thesis by blast
qed

section \<open>The interactive chooser\<close>

lemma displayCandidates_parsed:
  "\<forall>s\<in>set candidates. \<exists>ad. arrow_get (releaseDate s) = Some ad \<Longrightarrow>
   arrow_get (release_date sng) = Some bd \<Longrightarrow>
   \<exists>rows. displayCandidates arrow_get candidates sng pageStart = Inr rows"
proof (induction candidates arbitrary: pageStart)
  case Nil
  then show ?case by simp
next
  case (Cons s candidates)
  from Cons.prems obtain ad where ad: "arrow_get (releaseDate s) = Some ad" by auto
  have "aceh_distance arrow_get (releaseDate s) (release_date sng)
        = Inr (aceh_f (\<bar>real_of_int (timedelta_days ad bd)\<bar> / 365))"
    using ad Cons.prems(2) by (rule aceh_distance_parsed)
  from get_tracks_distance_parsed[OF this]
  obtain d where d: "get_tracks_distance arrow_get (trackName s) (artistName s)
             (collectionCensoredName s) (releaseDate s)
             (title sng) (artist sng) (album sng) (release_date sng) = Inr d" by blast
  from Cons.IH[of "pageStart + 1"] Cons.prems
  obtain rows where "displayCandidates arrow_get candidates sng (pageStart + 1) = Inr rows" by auto
  with d show ?case by simp
qed

lemma isdigit_not_command:
  assumes "isdigit ans"
  shows "lower ans \<noteq> ''s'' \<and> lower ans \<noteq> ''n'' \<and> lower ans \<noteq> ''p''"
proof -
  have "lower_char c \<noteq> CHR ''s'' \<and> lower_char c \<noteq> CHR ''n'' \<and> lower_char c \<noteq> CHR ''p''"
    if "is_digit c" for c
  proof -
    have "lower_char c = c" using that
      by (auto simp: lower_char_def is_digit_def is_decimal_def Let_def)
    moreover have "c \<noteq> CHR ''s''" "c \<noteq> CHR ''n''" "c \<noteq> CHR ''p''"
      using that by (auto simp: is_digit_def is_decimal_def)
    ultimately show ?thesis by simp
  qed
  then show ?thesis using assms
    by (cases ans) (auto simp: isdigit_def lower_def)
qed

lemma py_int_isdigit: "py_int ans = Some n \<Longrightarrow> isdigit ans"
  by (auto simp: py_int_def all_decimal_def isdigit_def is_digit_def list_all_iff
      split: if_splits)

text \<open>A reply of digits that \<^verbatim>\<open>int\<close> refuses ends the chooser with \<open>ValueError\<close>, a reply
  of decimal digits beyond the list with \<open>IndexError\<close>.\<close>

lemma selectSong_reply_raises:
  assumes "displayCandidates arrow_get (take 10 (drop (page * 10) songs)) desiredSong (page * 10)
           = Inr rows"
    and "isdigit ans"
  shows "selectSong_loop arrow_get songs desiredSong page (ans # replies) =
           (case py_int ans of
              None \<Rightarrow> Inl ValueError
            | Some n \<Rightarrow> if n < length songs then Inr (Some (songs ! n)) else Inl IndexError)"
  using assms isdigit_not_command[of ans] by (simp add: Let_def)

text \<open>Claim C10: on whichever page the chooser is, once the page has been displayed a
  reply of decimal digits that \<^verbatim>\<open>int\<close> reads as an index \<open>n\<close> of the list selects the
  element \<open>n\<close> of the whole list, and a reply that is neither a string of digits nor one
  of the commands \<open>s\<close>, \<open>n\<close>, \<open>p\<close> (in either case) selects the first element of the whole
  list.\<close>

theorem selectSong_reply:
  assumes "displayCandidates arrow_get (take 10 (drop (page * 10) songs)) desiredSong (page * 10)
           = Inr rows"
  shows "(py_int ans = Some n \<and> n < length songs \<longrightarrow>
            selectSong_loop arrow_get songs desiredSong page (ans # replies)
            = Inr (Some (songs ! n)))
         \<and> (\<not> isdigit ans \<and> lower ans \<noteq> ''s'' \<and> lower ans \<noteq> ''n'' \<and> lower ans \<noteq> ''p''
              \<and> songs \<noteq> [] \<longrightarrow>
            selectSong_loop arrow_get songs desiredSong page (ans # replies)
            = Inr (Some (songs ! 0)))"
proof (intro conjI impI)
  assume h: "py_int ans = Some n \<and> n < length songs"
  then have "isdigit ans" by (simp add: py_int_isdigit)
  from selectSong_reply_raises[OF assms this, of replies] h
  show "selectSong_loop arrow_get songs desiredSong page (ans # replies)
            = Inr (Some (songs ! n))"
    by simp
next
  assume "\<not> isdigit ans \<and> lower ans \<noteq> ''s'' \<and> lower ans \<noteq> ''n'' \<and> lower ans \<noteq> ''p''
              \<and> songs \<noteq> []"
  then show "selectSong_loop arrow_get songs desiredSong page (ans # replies)
            = Inr (Some (songs ! 0))"
    using assms by (cases songs) (simp_all add: Let_def)
qed

lemma example_page:
  "\<exists>rows. displayCandidates iso_get (take 10 (drop (0 * 10) [tribute_am, hello_am])) hello_song (0 * 10)
          = Inr rows"
  by (rule displayCandidates_parsed[where bd = 1445558400000000])
     (simp_all add: tribute_am_def hello_am_def hello_song_def iso_get_2015_10_23 iso_get_2015_10_23_07)

lemma example_pages:
  "\<exists>rows. displayCandidates iso_get (take 10 (drop (page * 10) twelve_tracks)) hello_song (page * 10)
          = Inr rows"
proof (rule displayCandidates_parsed[where bd = 1445558400000000])
  have "\<exists>ad. iso_get (releaseDate s) = Some ad" if "s \<in> set twelve_tracks" for s
    using that
    by (auto simp: twelve_tracks_def tribute_am_def hello_am_def iso_get_2015_10_23_07)
  then show "\<forall>s\<in>set (take 10 (drop (page * 10) twelve_tracks)). \<exists>ad. iso_get (releaseDate s) = Some ad"
    by (meson in_set_dropD in_set_takeD)
  show "iso_get (release_date hello_song) = Some 1445558400000000"
    by (simp add: hello_song_def iso_get_2015_10_23)
qed

text \<open>On the second page of twelve candidates the reply \<^verbatim>\<open>11\<close> selects the last
  candidate of the list, and an empty reply selects the first candidate of the list, which
  is not on that page.\<close>

theorem selectSong_reply_witness:
  "(\<exists>rows. displayCandidates iso_get (take 10 (drop (1 * 10) twelve_tracks)) hello_song (1 * 10)
          = Inr rows)
   \<and> py_int ''11'' = Some 11 \<and> 11 < length twelve_tracks
   \<and> selectSong_loop iso_get twelve_tracks hello_song 1 [''11''] = Inr (Some hello_am)
   \<and> \<not> isdigit '''' \<and> lower '''' \<noteq> ''s'' \<and> lower '''' \<noteq> ''n'' \<and> lower '''' \<noteq> ''p''
   \<and> twelve_tracks \<noteq> []
   \<and> selectSong_loop iso_get twelve_tracks hello_song 1 [''''] = Inr (Some tribute_am)
   \<and> selectSong iso_get twelve_tracks hello_song [''n'', ''11''] = Inr (Some hello_am)"
proof -
  from example_pages[of 1] obtain rows where
    r: "displayCandidates iso_get (take 10 (drop (1 * 10) twelve_tracks)) hello_song (1 * 10)
          = Inr rows" by blast
  from example_pages[of 0] obtain rows0 where
    r0: "displayCandidates iso_get (take 10 (drop (0 * 10) twelve_tracks)) hello_song (0 * 10)
          = Inr rows0" by blast
  have d: "py_int ''11'' = Some 11" "\<not> isdigit ''''" "lower '''' = ''''"
    "lower ''n'' = ''n''"
    by (simp_all add: isdigit_def py_int_def all_decimal_def is_decimal_def decimal_value_def
        lower_def lower_char_def)
  have l: "length twelve_tracks = 12" "twelve_tracks \<noteq> []"
    "twelve_tracks ! 11 = hello_am" "twelve_tracks ! 0 = tribute_am"
    by (simp_all add: twelve_tracks_def)
  have a: "selectSong_loop iso_get twelve_tracks hello_song 1 [''11''] = Inr (Some hello_am)"
    using selectSong_reply[OF r, of "''11''" 11 "[]"] d l by simp
  have b: "selectSong_loop iso_get twelve_tracks hello_song 1 [''''] = Inr (Some tribute_am)"
    using selectSong_reply[OF r, of "''''" 0 "[]"] d l by simp
  have "selectSong iso_get twelve_tracks hello_song [''n'', ''11'']
        = selectSong_loop iso_get twelve_tracks hello_song 1 [''11'']"
    using r0 d l by (simp add: selectSong_def Let_def)
  with a b d l example_pages[of 1] show ?thesis by simp
qed

text \<open>The reply \<^verbatim>\<open>SUPERSCRIPT TWO\<close> (code point 178) is a string of digits for
  \<^verbatim>\<open>isdigit\<close> and no number for \<^verbatim>\<open>int\<close>.\<close>

lemma selectSong_superscript_reply:
  "selectSong_loop iso_get twelve_tracks hello_song 1 [[CHR 0xB2]] = Inl ValueError"
proof -
  from example_pages[of 1] obtain rows where
    r: "displayCandidates iso_get (take 10 (drop (1 * 10) twelve_tracks)) hello_song (1 * 10)
          = Inr rows" by blast
  have d: "isdigit [CHR 0xB2]" "py_int [CHR 0xB2] = None"
    by (simp_all add: isdigit_def is_digit_def py_int_def all_decimal_def is_decimal_def)
  from selectSong_reply_raises[OF r d(1), of "[]"] d(2) show ?thesis by simp
qed

text \<open>Claim C3 says that an index out of range selects the first candidate or skips.
  With two candidates the reply \<^verbatim>\<open>2\<close> is a string of digits, so the chooser reads
  \<open>songs[2]\<close>, which raises \<open>IndexError\<close>.\<close>

theorem selectSong_index_out_of_range:
  "selectSong iso_get [tribute_am, hello_am] hello_song [''2''] = Inl IndexError"
proof -
  from example_page obtain rows where
    r: "displayCandidates iso_get [tribute_am, hello_am] hello_song 0 = Inr rows" by auto
  have d: "isdigit ''2''" "py_int ''2'' = Some 2" "lower ''2'' = ''2''"
    by (simp_all add: isdigit_def is_digit_def py_int_def all_decimal_def is_decimal_def
        decimal_value_def lower_def lower_char_def)
  show ?thesis using r d by (simp add: selectSong_def)
qed

section \<open>Choosing the track for a playlist row\<close>

lemma distance_parsed:
  "arrow_get (releaseDate c) = Some ad \<Longrightarrow> arrow_get (release_date sng) = Some bd \<Longrightarrow>
   \<exists>d. distance arrow_get c sng = Inr d"
proof -
  assume "arrow_get (releaseDate c) = Some ad" "arrow_get (release_date sng) = Some bd"
  then have "aceh_distance arrow_get (releaseDate c) (release_date sng)
             = Inr (aceh_f (\<bar>real_of_int (timedelta_days ad bd)\<bar> / 365))"
    by (rule aceh_distance_parsed)
  from get_tracks_distance_parsed[OF this]
  have "distance arrow_get c sng =
        Inr (sqrt ((ro_distance (trackName c) (title sng))\<^sup>2
                   + (ro_distance (artistName c) (artist sng))\<^sup>2
                   + (ro_distance (collectionName c) (album sng))\<^sup>2
                   + (aceh_f (\<bar>real_of_int (timedelta_days ad bd)\<bar> / 365))\<^sup>2) / 2)"
    by (simp only: distance_def)
  then show ?thesis by (rule exI)
qed

lemma distance_fails:
  "arrow_get (releaseDate c) = None \<or> arrow_get (release_date sng) = None \<Longrightarrow>
   distance arrow_get c sng = Inl ParserError"
  by (simp add: distance_def get_tracks_distance_fails)

lemma distances_all:
  "\<forall>c\<in>set candidates. \<exists>d. distance arrow_get c sng = Inr d \<Longrightarrow>
   distances arrow_get candidates sng = Inr (map (dist_of arrow_get sng) candidates)"
  by (induction candidates) (auto simp: dist_of_def)

lemma distances_fail:
  "c \<in> set candidates \<Longrightarrow> distance arrow_get c sng = Inl ParserError \<Longrightarrow>
   (\<forall>x\<in>set candidates. distance arrow_get x sng = Inl ParserError \<or> (\<exists>d. distance arrow_get x sng = Inr d)) \<Longrightarrow>
   distances arrow_get candidates sng = Inl ParserError"
  by (induction candidates) (auto split: sum.splits)

lemma distance_cases:
  "distance arrow_get x sng = Inl ParserError \<or> (\<exists>d. distance arrow_get x sng = Inr d)"
proof (cases "arrow_get (releaseDate x) = None \<or> arrow_get (release_date sng) = None")
  case True
  then show ?thesis by (simp add: distance_fails)
next
  case False
  then obtain ad bd where "arrow_get (releaseDate x) = Some ad" "arrow_get (release_date sng) = Some bd"
    by auto
  then show ?thesis using distance_parsed[of arrow_get x ad sng bd] by simp
qed

lemma insort_key_decorated:
  "\<forall>p\<in>set ys. fst p = f (snd p) \<Longrightarrow>
   map snd (insort_key fst (f x, x) ys) = insort_key f x (map snd ys)"
  by (induction ys) auto

lemma sort_key_decorated:
  "map snd (sort_key fst (zip (map f xs) xs)) = sort_key f xs
   \<and> (\<forall>p\<in>set (sort_key fst (zip (map f xs) xs)). fst p = f (snd p))"
proof (induction xs)
  case Nil
  then show ?case by simp
next
  case (Cons x xs)
  then show ?case
    using insort_key_decorated[of "sort_key fst (zip (map f xs) xs)" f x]
    by (simp add: set_insort_key)
qed

lemma sorted_candidates_all:
  "\<forall>c\<in>set candidates. \<exists>d. distance arrow_get c sng = Inr d \<Longrightarrow>
   sorted_candidates arrow_get candidates sng = Inr (sort_key (dist_of arrow_get sng) candidates)"
  by (simp add: sorted_candidates_def distances_all sort_key_decorated)

lemma sorted_candidates_fail:
  "c \<in> set candidates \<Longrightarrow> distance arrow_get c sng = Inl ParserError \<Longrightarrow>
   sorted_candidates arrow_get candidates sng = Inl ParserError"
  using distances_fail[of c candidates arrow_get sng] distance_cases[of arrow_get _ sng]
  by (simp add: sorted_candidates_def)

lemma parse_failure_ends_resolve:
  assumes "2 \<le> length candidates" and "c \<in> set candidates"
    and "arrow_get (releaseDate c) = None \<or> arrow_get (release_date sng) = None"
  shows "resolve arrow_get err auto treshold sng candidates replies = Inl ParserError"
proof -
  have "distance arrow_get c sng = Inl ParserError" using assms(3) by (rule distance_fails)
  then have "sorted_candidates arrow_get candidates sng = Inl ParserError"
    using assms(2) by (intro sorted_candidates_fail)
  moreover have "length candidates \<noteq> 0" "length candidates \<noteq> 1" using assms(1) by auto
  ultimately show ?thesis by (simp add: resolve_def)
qed

lemma example_hello_distance: "distance iso_get hello_am hello_song = Inr 0"
proof -
  have "aceh_distance iso_get ''2015-10-23T07:00:00Z'' ''2015-10-23'' = Inr 0"
    using aceh_distance_parsed[of iso_get "''2015-10-23T07:00:00Z''" 1445583600000000
        "''2015-10-23''" 1445558400000000]
    by (simp add: iso_get_2015_10_23 iso_get_2015_10_23_07 timedelta_days_def aceh_f_0)
  from get_tracks_distance_parsed[OF this] show ?thesis
    by (simp add: distance_def hello_am_def hello_song_def ro_distance_same)
qed

lemma example_tribute_distance:
  "\<exists>d. distance iso_get tribute_am hello_song = Inr d \<and> 0 < d"
proof -
  have "aceh_distance iso_get ''2015-10-23T07:00:00Z'' ''2015-10-23'' = Inr 0"
    using aceh_distance_parsed[of iso_get "''2015-10-23T07:00:00Z''" 1445583600000000
        "''2015-10-23''" 1445558400000000]
    by (simp add: iso_get_2015_10_23 iso_get_2015_10_23_07 timedelta_days_def aceh_f_0)
  from get_tracks_distance_parsed[OF this]
  have e: "distance iso_get tribute_am hello_song =
           Inr (sqrt ((ro_distance ''Hello (Piano Tribute)'' ''Hello'')\<^sup>2
                      + (ro_distance ''Piano Covers'' ''Adele'')\<^sup>2
                      + (ro_distance ''Tribute to Adele'' ''25'')\<^sup>2 + 0\<^sup>2) / 2)"
    by (simp add: distance_def tribute_am_def hello_song_def)
  define p where "p = (ro_distance ''Hello (Piano Tribute)'' ''Hello'')\<^sup>2"
  define q where "q = (ro_distance ''Piano Covers'' ''Adele'')\<^sup>2"
  define r where "r = (ro_distance ''Tribute to Adele'' ''25'')\<^sup>2"
  have "0 < ro_distance ''Hello (Piano Tribute)'' ''Hello''" by (rule ro_distance_pos) simp
  then have p: "0 < p" by (simp add: p_def)
  have q: "0 \<le> q" and r: "0 \<le> r" by (simp_all add: q_def r_def)
  from p q r have "0 < p + q + r + 0\<^sup>2" by simp
  then have "0 < sqrt (p + q + r + 0\<^sup>2)" by (simp only: real_sqrt_gt_0_iff)
  then have "0 < sqrt (p + q + r + 0\<^sup>2) / 2" by simp
  then have "0 < sqrt ((ro_distance ''Hello (Piano Tribute)'' ''Hello'')\<^sup>2
                      + (ro_distance ''Piano Covers'' ''Adele'')\<^sup>2
                      + (ro_distance ''Tribute to Adele'' ''25'')\<^sup>2 + 0\<^sup>2) / 2"
    by (simp only: p_def q_def r_def)
  with e show ?thesis by blast
qed

lemma example_ranking:
  "sorted_candidates iso_get [tribute_am, hello_am] hello_song = Inr [hello_am, tribute_am]"
proof -
  from example_tribute_distance obtain d where
    d: "distance iso_get tribute_am hello_song = Inr d" "0 < d" by blast
  show ?thesis using d example_hello_distance
    by (simp add: sorted_candidates_def)
qed

lemma example_distances:
  "\<forall>c\<in>set [tribute_am, hello_am]. \<exists>d. distance iso_get c hello_song = Inr d"
proof -
  have "\<exists>d. distance iso_get c hello_song = Inr d"
    if "releaseDate c = ''2015-10-23T07:00:00Z''" for c
    by (rule distance_parsed[where ad = 1445583600000000 and bd = 1445558400000000])
       (simp_all add: that hello_song_def iso_get_2015_10_23 iso_get_2015_10_23_07)
  then show ?thesis by (simp add: tribute_am_def hello_am_def)
qed

text \<open>Claim C4: a single candidate is selected whatever the parser does with its release
  date and whatever its distance from the track of the playlist.\<close>

theorem resolve_single_candidate:
  "resolve arrow_get err auto treshold sng [c] replies = Inr (Some c)"
  by (simp add: resolve_def)

theorem resolve_single_candidate_witness:
  "resolve iso_get (11 / 100) False (4 / 10) hello_song [undated_am] [] = Inr (Some undated_am)
   \<and> resolve (\<lambda>s. None) (11 / 100) False (4 / 10) hello_song [tribute_am] [] = Inr (Some tribute_am)"
  using resolve_single_candidate[of iso_get "11 / 100" False "4 / 10" hello_song undated_am "[]"]
    resolve_single_candidate[of "\<lambda>s. None" "11 / 100" False "4 / 10" hello_song tribute_am "[]"]
  by simp

text \<open>Claim C1: with at least two candidates whose distances can all be computed, the
  candidates are ranked by a stable sort in ascending order of distance.  With \<open>d\<close> the
  distance of the first of the ranking, that candidate is selected when \<open>d < err\<close>, and
  otherwise when \<open>auto\<close> holds and \<open>d < treshold\<close>; otherwise the result is that of
  \<open>selectSong\<close> on the whole ranking.\<close>

theorem resolve_ranked:
  assumes "2 \<le> length candidates"
    and "\<forall>c\<in>set candidates. \<exists>d. distance arrow_get c sng = Inr d"
  shows "\<exists>ranked d.
           sorted_candidates arrow_get candidates sng = Inr ranked
           \<and> length ranked = length candidates \<and> set ranked = set candidates
           \<and> sorted (map (dist_of arrow_get sng) ranked)
           \<and> (\<forall>k. filter (\<lambda>c. dist_of arrow_get sng c = k) ranked
                    = filter (\<lambda>c. dist_of arrow_get sng c = k) candidates)
           \<and> distance arrow_get (ranked ! 0) sng = Inr d
           \<and> resolve arrow_get err auto treshold sng candidates replies =
               (if d < err then Inr (Some (ranked ! 0))
                else if auto \<and> d < treshold then Inr (Some (ranked ! 0))
                else selectSong arrow_get ranked sng replies)"
proof -
  define ranked where "ranked = sort_key (dist_of arrow_get sng) candidates"
  have s: "sorted_candidates arrow_get candidates sng = Inr ranked"
    using sorted_candidates_all[OF assms(2)] by (simp add: ranked_def)
  have len: "length ranked = length candidates" by (simp add: ranked_def)
  have n: "length candidates \<noteq> 0" "length candidates \<noteq> 1" using assms(1) by auto
  have "0 < length ranked" using len assms(1) by auto
  then have "ranked ! 0 \<in> set ranked" by (rule nth_mem)
  then have "ranked ! 0 \<in> set candidates" by (simp add: ranked_def)
  with assms(2) obtain d where d: "distance arrow_get (ranked ! 0) sng = Inr d" by blast
  have r: "resolve arrow_get err auto treshold sng candidates replies =
               (if d < err then Inr (Some (ranked ! 0))
                else if auto \<and> d < treshold then Inr (Some (ranked ! 0))
                else selectSong arrow_get ranked sng replies)"
    using n s d by (simp add: resolve_def)
  show ?thesis
  proof (intro exI conjI allI)
    show "sorted_candidates arrow_get candidates sng = Inr ranked" by (rule s)
    show "length ranked = length candidates" by (rule len)
    show "set ranked = set candidates" by (simp add: ranked_def)
    show "sorted (map (dist_of arrow_get sng) ranked)" by (simp add: ranked_def)
    show "filter (\<lambda>c. dist_of arrow_get sng c = k) ranked
            = filter (\<lambda>c. dist_of arrow_get sng c = k) candidates" for k
      by (simp add: ranked_def sort_key_stable)
    show "distance arrow_get (ranked ! 0) sng = Inr d" by (rule d)
    show "resolve arrow_get err auto treshold sng candidates replies =
               (if d < err then Inr (Some (ranked ! 0))
                else if auto \<and> d < treshold then Inr (Some (ranked ! 0))
                else selectSong arrow_get ranked sng replies)" by (rule r)
  qed
qed

text \<open>At the example the ranking puts the second candidate first, and the track is
  selected within the rounding error.\<close>

theorem resolve_ranked_witness:
  "2 \<le> length [tribute_am, hello_am]
   \<and> (\<exists>d. distance iso_get tribute_am hello_song = Inr d)
   \<and> (\<exists>d. distance iso_get hello_am hello_song = Inr d)
   \<and> sorted_candidates iso_get [tribute_am, hello_am] hello_song = Inr [hello_am, tribute_am]
   \<and> distance iso_get ([hello_am, tribute_am] ! 0) hello_song = Inr 0
   \<and> resolve iso_get (11 / 100) False (4 / 10) hello_song [tribute_am, hello_am] [] =
        Inr (Some hello_am)"
proof -
  have l: "2 \<le> length [tribute_am, hello_am]" by simp
  from resolve_ranked[OF l example_distances, of "11 / 100" False "4 / 10" "[]"]
  obtain ranked d where
    s: "sorted_candidates iso_get [tribute_am, hello_am] hello_song = Inr ranked"
    and d: "distance iso_get (ranked ! 0) hello_song = Inr d"
    and r: "resolve iso_get (11 / 100) False (4 / 10) hello_song [tribute_am, hello_am] [] =
               (if d < 11 / 100 then Inr (Some (ranked ! 0))
                else if False \<and> d < 4 / 10 then Inr (Some (ranked ! 0))
                else selectSong iso_get ranked hello_song [])"
    by blast
  from s have rk: "ranked = [hello_am, tribute_am]" by (simp add: example_ranking)
  with d have d0: "d = 0" by (simp add: example_hello_distance)
  from r rk d0 have "resolve iso_get (11 / 100) False (4 / 10) hello_song [tribute_am, hello_am] [] =
        Inr (Some hello_am)" by simp
  with l example_distances example_ranking example_hello_distance show ?thesis by simp
qed

text \<open>The caller of the playlist export soaks up the same failure: a track of the search
  result whose date does not parse makes \<open>getBestMatch\<close> skip the track of the
  playlist.\<close>

lemma best_match_loop_raises:
  "tr \<in> set tracks \<Longrightarrow>
   candidate_distance arrow_get a_track a_artist a_album a_year tr = Inl e0 \<Longrightarrow>
   \<exists>e. best_match_loop arrow_get a_track a_artist a_album a_year tracks st = Inl e"
proof (induction tracks arbitrary: st)
  case Nil
  then show ?case by simp
next
  case (Cons x tracks)
  obtain nearest best_match where st: "st = (nearest, best_match)" by (cases st) auto
  show ?case
  proof (cases "candidate_distance arrow_get a_track a_artist a_album a_year x")
    case (Inl e)
    then show ?thesis by (simp add: st candidate_distance_def)
  next
    case (Inr d)
    with Cons.prems have "tr \<in> set tracks" by auto
    from Cons.IH[OF this Cons.prems(2)] Inr show ?thesis
      by (simp add: st candidate_distance_def)
  qed
qed

lemma getBestMatch_skips:
  assumes "tr \<in> set songs"
    and "arrow_get a_year = None \<or> arrow_get (releaseDate tr) = None"
  shows "getBestMatch arrow_get a_title a_artist a_album a_year songs = None"
proof -
  have "candidate_distance arrow_get a_title a_artist a_album a_year tr = Inl ParserError"
    using assms(2) by (simp add: candidate_distance_def get_tracks_distance_fails)
  from best_match_loop_raises[OF assms(1) this, of "(1, None)"]
  show ?thesis by (auto simp: getBestMatch_def get_best_match_def)
qed

text \<open>Claim C2 says that a candidate whose release date does not parse is left out of the
  ranking, that the failure never leaves the resolve operation, and that the result is
  Skipped when every candidate fails.  With a dated and an undated candidate, and with
  two undated ones, the outcome of \<open>resolve\<close> is the parser's error: nothing catches it
  in \<open>add_tracks_from_CSV\<close>.  On the same candidates \<open>getBestMatch\<close> catches the
  exception and skips the track.\<close>

theorem resolve_parse_failure_raises:
  "resolve iso_get (11 / 100) True (4 / 10) hello_song [hello_am, undated_am] [] = Inl ParserError
   \<and> resolve iso_get (11 / 100) True (4 / 10) hello_song [undated_am, undated_am] [] = Inl ParserError
   \<and> getBestMatch iso_get ''Hello'' ''Adele'' ''25'' ''2015-10-23'' [hello_am, undated_am] = None"
proof -
  have u: "iso_get (releaseDate undated_am) = None \<or> iso_get (release_date hello_song) = None"
    by (simp add: undated_am_def iso_get_empty)
  have "resolve iso_get (11 / 100) True (4 / 10) hello_song [hello_am, undated_am] [] = Inl ParserError"
    by (rule parse_failure_ends_resolve[OF _ _ u]) simp_all
  moreover
  have "resolve iso_get (11 / 100) True (4 / 10) hello_song [undated_am, undated_am] [] = Inl ParserError"
    by (rule parse_failure_ends_resolve[OF _ _ u]) simp_all
  moreover
  have "getBestMatch iso_get ''Hello'' ''Adele'' ''25'' ''2015-10-23'' [hello_am, undated_am] = None"
    by (rule getBestMatch_skips[of undated_am]) (simp_all add: undated_am_def iso_get_empty)
  ultimately show ?thesis by simp
qed

end
